theory Spec2Isabelle
  imports Complex_Main "HOL-Library.Log_Nat"
begin

section \<open>Covid-Tracker: time-series alignment and forecasting\<close>

text \<open>
  The two functions of \<^verbatim>\<open>src/App.js\<close> that compute rather than render:
  \<^verbatim>\<open>processHistoricalData\<close> (lines 60-74), which merges three date-keyed objects into
  one array of records, and \<^verbatim>\<open>forecastData\<close> (lines 185-222), which fits a line to the
  case counts and extrapolates it. Both lean on the JavaScript runtime: numbers,
  \<^verbatim>\<open>Array.prototype.sort\<close>, \<^verbatim>\<open>Set\<close> and \<^verbatim>\<open>Date\<close>. The parts of the runtime they use
  are modelled first, following ECMA-262.
\<close>

subsection \<open>JavaScript numbers\<close>

text \<open>
  A number is a binary64 value: a finite one, one of the two infinities, or NaN. A finite
  number is the rational it denotes, and every arithmetic operation gives the exact result
  rounded to the nearest binary64 value, ties to the even significand, with an infinity
  when the rounded magnitude reaches \<open>2^1024\<close> (IEEE 754 round-to-nearest-even, as
  ECMA-262 prescribes). The two zeros are not told apart: they differ only under a
  division by zero, and the two divisors of \<^verbatim>\<open>forecastData\<close> are a difference of
  non-negative numbers and the array length.
\<close>

datatype jsnum = Finite rat | PosInf | NegInf | NaN

text \<open>\<open>pow2 e\<close> is \<open>2^e\<close> for an integer \<open>e\<close>, and \<open>ilog2 x\<close> the exponent of a
  positive \<open>x\<close>: the \<open>e\<close> with \<open>2^e \<le> x < 2^(e+1)\<close>.\<close>

definition pow2 :: "int \<Rightarrow> rat" where
  "pow2 e = (if 0 \<le> e then 2 ^ nat e else 1 / 2 ^ nat (- e))"

definition ilog2 :: "rat \<Rightarrow> int" where
  "ilog2 x =
     (let (a, b) = quotient_of x; e = bitlen a - bitlen b
      in if pow2 e \<le> x then e else e - 1)"

definition round_half_even :: "rat \<Rightarrow> int" where
  "round_half_even r =
     (let f = \<lfloor>r\<rfloor>; d = r - of_int f
      in if d < 1 / 2 then f else if 1 / 2 < d then f + 1 else if even f then f else f + 1)"

text \<open>The binary64 magnitude nearest to a positive \<open>x\<close>: a multiple of the spacing
  \<open>2^(e - 52)\<close>, where \<open>e\<close> is the exponent of \<open>x\<close> and at least \<open>-1022\<close> (below
  that the numbers are subnormal and the spacing stays \<open>2^-1074\<close>).\<close>

definition nearest64 :: "rat \<Rightarrow> rat" where
  "nearest64 x =
     (let e = max (ilog2 x) (- 1022); q = pow2 (e - 52)
      in of_int (round_half_even (x / q)) * q)"

definition round64 :: "rat \<Rightarrow> jsnum" where
  "round64 x =
     (if x = 0 then Finite 0
      else let v = nearest64 \<bar>x\<bar>
           in if pow2 1024 \<le> v then (if 0 < x then PosInf else NegInf)
              else Finite (if 0 < x then v else - v))"

text \<open>An integer as a number: a count read from JSON, an array index, an array length.\<close>

definition num_of_int :: "int \<Rightarrow> jsnum" where
  "num_of_int k = round64 (of_int k)"

fun js_neg :: "jsnum \<Rightarrow> jsnum" where
  "js_neg (Finite x) = Finite (- x)"
| "js_neg PosInf = NegInf"
| "js_neg NegInf = PosInf"
| "js_neg NaN = NaN"

fun js_add :: "jsnum \<Rightarrow> jsnum \<Rightarrow> jsnum" where
  "js_add (Finite x) (Finite y) = round64 (x + y)"
| "js_add NaN _ = NaN"
| "js_add _ NaN = NaN"
| "js_add PosInf NegInf = NaN"
| "js_add NegInf PosInf = NaN"
| "js_add PosInf _ = PosInf"
| "js_add NegInf _ = NegInf"
| "js_add _ PosInf = PosInf"
| "js_add _ NegInf = NegInf"

definition js_sub :: "jsnum \<Rightarrow> jsnum \<Rightarrow> jsnum" where
  "js_sub a b = js_add a (js_neg b)"

fun js_mul :: "jsnum \<Rightarrow> jsnum \<Rightarrow> jsnum" where
  "js_mul (Finite x) (Finite y) = round64 (x * y)"
| "js_mul NaN _ = NaN"
| "js_mul _ NaN = NaN"
| "js_mul (Finite x) v = (if x = 0 then NaN else if 0 < x then v else js_neg v)"
| "js_mul v (Finite y) = (if y = 0 then NaN else if 0 < y then v else js_neg v)"
| "js_mul PosInf v = v"
| "js_mul NegInf v = js_neg v"

fun js_div :: "jsnum \<Rightarrow> jsnum \<Rightarrow> jsnum" where
  "js_div (Finite x) (Finite y) =
     (if y = 0 then (if x = 0 then NaN else if 0 < x then PosInf else NegInf)
      else round64 (x / y))"
| "js_div NaN _ = NaN"
| "js_div _ NaN = NaN"
| "js_div (Finite x) _ = Finite 0"
| "js_div v (Finite y) = (if 0 \<le> y then v else js_neg v)"
| "js_div _ _ = NaN"

text \<open>\<^verbatim>\<open>Math.round\<close> is \<open>floor (x + 0.5)\<close> of the exact value: halves go up. The result
  is a binary64 value again (a number of magnitude \<open>2^52\<close> or more is an integer already).
  \<^verbatim>\<open>Math.max\<close> is NaN when an argument is.\<close>

fun Math_round :: "jsnum \<Rightarrow> jsnum" where
  "Math_round (Finite x) = Finite (of_int \<lfloor>x + 1 / 2\<rfloor>)"
| "Math_round v = v"

fun Math_max :: "jsnum \<Rightarrow> jsnum \<Rightarrow> jsnum" where
  "Math_max (Finite x) (Finite y) = Finite (max x y)"
| "Math_max NaN _ = NaN"
| "Math_max _ NaN = NaN"
| "Math_max PosInf _ = PosInf"
| "Math_max _ PosInf = PosInf"
| "Math_max NegInf v = v"
| "Math_max v NegInf = v"

text \<open>The comparison \<^verbatim>\<open>v >= 0\<close>: false for NaN.\<close>

fun js_ge0 :: "jsnum \<Rightarrow> bool" where
  "js_ge0 (Finite x) = (0 \<le> x)"
| "js_ge0 PosInf = True"
| "js_ge0 NegInf = False"
| "js_ge0 NaN = False"

subsection \<open>The calendar of \<^verbatim>\<open>Date\<close>\<close>

text \<open>
  A calendar date is a triple (year, month 1..12, day of month) of the proleptic Gregorian
  calendar. Day number \<open>n\<close> is the \<open>n\<close>-th day after 1970-01-01, reached by stepping
  the calendar one day at a time; \<open>day_of_civil\<close> is ECMA-262's closed form
  (\<open>DayFromYear\<close> plus the days before the month), as \<open>MakeDay\<close> uses it. The table
  of \<open>days_before_month\<close> is for a month within 1..12; no other month reaches it, since
  \<open>iso_civil\<close> accepts calendar dates only and \<open>civil_of_day\<close> yields no others.
\<close>

type_synonym civil = "int \<times> int \<times> int"

definition leap :: "int \<Rightarrow> bool" where
  "leap y = (y mod 4 = 0 \<and> (y mod 100 \<noteq> 0 \<or> y mod 400 = 0))"

definition days_in_month :: "int \<Rightarrow> int \<Rightarrow> int" where
  "days_in_month y m =
     (if m = 2 then (if leap y then 29 else 28)
      else if m = 4 \<or> m = 6 \<or> m = 9 \<or> m = 11 then 30 else 31)"

fun valid_civil :: "civil \<Rightarrow> bool" where
  "valid_civil (y, m, d) = (1 \<le> m \<and> m \<le> 12 \<and> 1 \<le> d \<and> d \<le> days_in_month y m)"

fun next_day :: "civil \<Rightarrow> civil" where
  "next_day (y, m, d) =
     (if d < days_in_month y m then (y, m, d + 1)
      else if m < 12 then (y, m + 1, 1) else (y + 1, 1, 1))"

fun prev_day :: "civil \<Rightarrow> civil" where
  "prev_day (y, m, d) =
     (if 1 < d then (y, m, d - 1)
      else if 1 < m then (y, m - 1, days_in_month y (m - 1)) else (y - 1, 12, 31))"

definition civil_of_day :: "int \<Rightarrow> civil" where
  "civil_of_day n =
     (if 0 \<le> n then (next_day ^^ nat n) (1970, 1, 1)
      else (prev_day ^^ nat (- n)) (1970, 1, 1))"

definition DayFromYear :: "int \<Rightarrow> int" where
  "DayFromYear y =
     365 * (y - 1970) + (y - 1969) div 4 - (y - 1901) div 100 + (y - 1601) div 400"

definition days_before_month :: "int \<Rightarrow> int \<Rightarrow> int" where
  "days_before_month y m =
     [0, 31, 59, 90, 120, 151, 181, 212, 243, 273, 304, 334] ! nat (m - 1)
       + (if leap y \<and> 2 < m then 1 else 0)"

fun day_of_civil :: "civil \<Rightarrow> int" where
  "day_of_civil (y, m, d) = DayFromYear y + days_before_month y m + d - 1"

subsection \<open>Printing and reading dates\<close>

text \<open>
  \<^verbatim>\<open>toISOString\<close> prints \<^verbatim>\<open>YYYY-MM-DDTHH:mm:ss.sssZ\<close>, the year with four digits from 0
  to 9999 and with a sign and six digits otherwise. \<open>iso_civil\<close> reads the date-only forms
  of that format back; a date-only string denotes midnight UTC.
\<close>

definition digit_char :: "nat \<Rightarrow> char" where
  "digit_char n = ''0123456789'' ! (n mod 10)"

fun pad_dec :: "nat \<Rightarrow> nat \<Rightarrow> string" where
  "pad_dec 0 k = []"
| "pad_dec (Suc n) k = pad_dec n (k div 10) @ [digit_char (k mod 10)]"

definition digit_of :: "char \<Rightarrow> nat option" where
  "digit_of c =
     map_of [(CHR ''0'', 0), (CHR ''1'', 1), (CHR ''2'', 2), (CHR ''3'', 3), (CHR ''4'', 4),
             (CHR ''5'', 5), (CHR ''6'', 6), (CHR ''7'', 7), (CHR ''8'', 8), (CHR ''9'', 9)] c"

fun dec_of :: "nat \<Rightarrow> string \<Rightarrow> nat option" where
  "dec_of acc [] = Some acc"
| "dec_of acc (c # cs) =
     (case digit_of c of None \<Rightarrow> None | Some d \<Rightarrow> dec_of (10 * acc + d) cs)"

definition format_year :: "int \<Rightarrow> string" where
  "format_year y =
     (if 0 \<le> y \<and> y \<le> 9999 then pad_dec 4 (nat y)
      else (if y < 0 then CHR ''-'' else CHR ''+'') # pad_dec 6 (nat \<bar>y\<bar>))"

fun format_civil :: "civil \<Rightarrow> string" where
  "format_civil (y, m, d) =
     format_year y @ ''-'' @ pad_dec 2 (nat m) @ ''-'' @ pad_dec 2 (nat d)"

definition parse_year :: "string \<Rightarrow> int option" where
  "parse_year s =
     (if length s = 4 then map_option int (dec_of 0 s)
      else if length s = 7 \<and> hd s = CHR ''+'' then map_option int (dec_of 0 (tl s))
      else if length s = 7 \<and> hd s = CHR ''-'' then
        (case dec_of 0 (tl s) of
           None \<Rightarrow> None
         | Some v \<Rightarrow> if v = 0 then None else Some (- int v))
      else None)"

definition iso_civil :: "string \<Rightarrow> civil option" where
  "iso_civil s =
     (let k = length s - 6 in
      if 6 \<le> length s \<and> s ! k = CHR ''-'' \<and> s ! (k + 3) = CHR ''-'' then
        (case (parse_year (take k s), dec_of 0 (take 2 (drop (k + 1) s)),
               dec_of 0 (drop (k + 4) s)) of
           (Some y, Some m, Some d) \<Rightarrow>
             if valid_civil (y, int m, int d) then Some (y, int m, int d) else None
         | _ \<Rightarrow> None)
      else None)"

subsection \<open>The host, and \<^verbatim>\<open>Date\<close> objects\<close>

text \<open>
  \<^verbatim>\<open>getDate\<close> and \<^verbatim>\<open>setDate\<close> work in the local time of the machine the page runs on,
  while parsing a date-only string and \<^verbatim>\<open>toISOString\<close> work in UTC. The local time zone is
  therefore an input of \<^verbatim>\<open>forecastData\<close>: \<open>tza_utc h t\<close> is ECMA-262's
  \<open>LocalTZA(t, true)\<close>, the offset in milliseconds in force at the UTC instant \<open>t\<close>, and
  \<open>tza_local h t\<close> is \<open>LocalTZA(t, false)\<close>, the offset for the local wall-clock
  time \<open>t\<close>. A string that is not an ISO date-only form is parsed by rules ECMA-262
  leaves to the implementation (or by the date-time forms, which depend on the zone):
  \<open>fallback_parse\<close>.

  A \<^verbatim>\<open>Date\<close> object is its time value: milliseconds since the epoch, or \<open>None\<close> for NaN,
  the Invalid Date.
\<close>

record host =
  tza_utc :: "int \<Rightarrow> int"
  tza_local :: "int \<Rightarrow> int"
  fallback_parse :: "string \<Rightarrow> int option"

datatype js_error = RangeError | TypeError

definition msPerDay :: int where
  "msPerDay = 86400000"

definition TimeClip :: "int \<Rightarrow> int option" where
  "TimeClip t = (if \<bar>t\<bar> \<le> 8640000000000000 then Some t else None)"

definition Day :: "int \<Rightarrow> int" where
  "Day t = t div msPerDay"

definition TimeWithinDay :: "int \<Rightarrow> int" where
  "TimeWithinDay t = t mod msPerDay"

definition LocalTime :: "host \<Rightarrow> int \<Rightarrow> int" where
  "LocalTime h t = t + tza_utc h t"

definition UTC_time :: "host \<Rightarrow> int \<Rightarrow> int" where
  "UTC_time h t = t - tza_local h t"

definition YearFromTime :: "int \<Rightarrow> int" where
  "YearFromTime t = fst (civil_of_day (Day t))"

text \<open>\<open>MonthFromTime\<close> counts months from 0, as ECMA-262 does.\<close>

definition MonthFromTime :: "int \<Rightarrow> int" where
  "MonthFromTime t = fst (snd (civil_of_day (Day t))) - 1"

definition DateFromTime :: "int \<Rightarrow> int" where
  "DateFromTime t = snd (snd (civil_of_day (Day t)))"

text \<open>\<open>MakeDay\<close> for a month index within 0..11, which is all \<^verbatim>\<open>setDate\<close> passes: the day
  number of the first of the month, plus \<open>dt - 1\<close>.\<close>

definition MakeDay :: "int \<Rightarrow> int \<Rightarrow> int \<Rightarrow> int" where
  "MakeDay y mi dt = day_of_civil (y, mi + 1, 1) + dt - 1"

definition MakeDate :: "int \<Rightarrow> int \<Rightarrow> int" where
  "MakeDate dy tm = dy * msPerDay + tm"

definition Date_parse :: "host \<Rightarrow> string \<Rightarrow> int option" where
  "Date_parse h s =
     (case iso_civil s of
        Some c \<Rightarrow> Some (day_of_civil c * msPerDay)
      | None \<Rightarrow> fallback_parse h s)"

text \<open>\<^verbatim>\<open>new Date(string)\<close>.\<close>

definition Date_new :: "host \<Rightarrow> string \<Rightarrow> int option" where
  "Date_new h s = (case Date_parse h s of None \<Rightarrow> None | Some t \<Rightarrow> TimeClip t)"

definition getDate :: "host \<Rightarrow> int option \<Rightarrow> int option" where
  "getDate h dt =
     (case dt of None \<Rightarrow> None | Some t \<Rightarrow> Some (DateFromTime (LocalTime h t)))"

definition setDate :: "host \<Rightarrow> int option \<Rightarrow> int option \<Rightarrow> int option" where
  "setDate h dt arg =
     (case dt of
        None \<Rightarrow> None
      | Some t \<Rightarrow>
          (case arg of
             None \<Rightarrow> None
           | Some v \<Rightarrow>
               (let tl = LocalTime h t;
                    newDate = MakeDate (MakeDay (YearFromTime tl) (MonthFromTime tl) v)
                                (TimeWithinDay tl)
                in TimeClip (UTC_time h newDate))))"

definition format_time :: "int \<Rightarrow> string" where
  "format_time tm =
     pad_dec 2 (nat (tm div 3600000)) @ '':'' @ pad_dec 2 (nat (tm div 60000 mod 60)) @ '':''
       @ pad_dec 2 (nat (tm div 1000 mod 60)) @ ''.'' @ pad_dec 3 (nat (tm mod 1000))"

text \<open>\<^verbatim>\<open>toISOString\<close> throws a RangeError on the Invalid Date.\<close>

definition toISOString :: "int option \<Rightarrow> js_error + string" where
  "toISOString dt =
     (case dt of
        None \<Rightarrow> Inl RangeError
      | Some t \<Rightarrow>
          Inr (format_civil (civil_of_day (Day t)) @ ''T'' @ format_time (TimeWithinDay t)
                 @ ''Z''))"

text \<open>\<^verbatim>\<open>s.split('T')[0]\<close>: the text before the first \<^verbatim>\<open>T\<close>.\<close>

definition split_T_0 :: "string \<Rightarrow> string" where
  "split_T_0 s = takeWhile (\<lambda>c. c \<noteq> CHR ''T'') s"

text \<open>Two hosts: one on UTC, and one on New York time as it was in 2021 (UTC-5, and UTC-4
  from 2021-03-14 07:00 UTC to 2021-11-07 06:00 UTC; a local time that the clock skips or
  repeats takes the offset from before the change).\<close>

definition utc_host :: host where
  "utc_host = \<lparr>tza_utc = (\<lambda>t. 0), tza_local = (\<lambda>t. 0), fallback_parse = (\<lambda>s. None)\<rparr>"

definition new_york_2021 :: host where
  "new_york_2021 =
     \<lparr>tza_utc = (\<lambda>t. if 1615705200000 \<le> t \<and> t < 1636264800000 then - 14400000
                     else - 18000000),
      tza_local = (\<lambda>t. if 1615690800000 \<le> t \<and> t < 1636250400000 then - 14400000
                       else - 18000000),
      fallback_parse = (\<lambda>s. None)\<rparr>"

subsection \<open>\<^verbatim>\<open>Array.prototype.sort\<close> and \<^verbatim>\<open>Set\<close>\<close>

text \<open>
  \<^verbatim>\<open>sort\<close> is stable, and a comparator result of NaN counts as 0. For a consistent
  comparator the result is the one stable sorted arrangement, which insertion from the right
  computes; for an inconsistent one (here: a key that is no date) ECMA-262 leaves the order
  to the implementation, and this is one such order.
\<close>

fun insert_by :: "('a \<Rightarrow> 'a \<Rightarrow> int) \<Rightarrow> 'a \<Rightarrow> 'a list \<Rightarrow> 'a list" where
  "insert_by cmp x [] = [x]"
| "insert_by cmp x (y # ys) =
     (if cmp x y \<le> 0 then x # y # ys else y # insert_by cmp x ys)"

definition Array_sort :: "('a \<Rightarrow> 'a \<Rightarrow> int) \<Rightarrow> 'a list \<Rightarrow> 'a list" where
  "Array_sort cmp xs = foldr (insert_by cmp) xs []"

text \<open>A \<^verbatim>\<open>Set\<close> keeps its elements in the order of their first insertion.\<close>

definition Set_add :: "'a list \<Rightarrow> 'a \<Rightarrow> 'a list" where
  "Set_add s x = (if x \<in> set s then s else s @ [x])"

definition Set_from :: "'a list \<Rightarrow> 'a list" where
  "Set_from xs = foldl Set_add [] xs"

subsection \<open>\<^verbatim>\<open>processHistoricalData\<close>\<close>

text \<open>
  An argument is an object that maps date strings to numbers, or null/undefined (\<open>None\<close>).
  An object is the list of its own properties in the order \<^verbatim>\<open>Object.keys\<close> gives them;
  its keys are distinct. The values are the integers of the data model.
\<close>

type_synonym series = "(string \<times> int) list"

record aligned_record =
  date :: string
  cases :: int
  recovered :: int
  vaccines :: int

text \<open>\<^verbatim>\<open>Object.keys(data || {})\<close>\<close>

definition Object_keys :: "series option \<Rightarrow> string list" where
  "Object_keys data = (case data of None \<Rightarrow> [] | Some obj \<Rightarrow> map fst obj)"

text \<open>\<^verbatim>\<open>(a, b) => new Date(a) - new Date(b)\<close>, with NaN read as 0 by \<^verbatim>\<open>sort\<close>.\<close>

definition date_compare :: "host \<Rightarrow> string \<Rightarrow> string \<Rightarrow> int" where
  "date_compare h a b =
     (case (Date_new h a, Date_new h b) of
        (Some x, Some y) \<Rightarrow> x - y
      | _ \<Rightarrow> 0)"

text \<open>\<^verbatim>\<open>data ? data[date] || 0 : 0\<close>\<close>

definition value_or_0 :: "series option \<Rightarrow> string \<Rightarrow> int" where
  "value_or_0 data d =
     (case data of
        None \<Rightarrow> 0
      | Some obj \<Rightarrow>
          (case map_of obj d of None \<Rightarrow> 0 | Some v \<Rightarrow> if v = 0 then 0 else v))"

definition processHistoricalData ::
  "host \<Rightarrow> series option \<Rightarrow> series option \<Rightarrow> series option \<Rightarrow> aligned_record list" where
  "processHistoricalData h casesData recoveredData vaccineData =
     (let dates = Set_from (Array_sort (date_compare h)
                    (Object_keys casesData @ Object_keys recoveredData
                       @ Object_keys vaccineData))
      in map (\<lambda>d. \<lparr>date = d,
                    cases = value_or_0 casesData d,
                    recovered = value_or_0 recoveredData d,
                    vaccines = value_or_0 vaccineData d\<rparr>) dates)"

subsection \<open>\<^verbatim>\<open>forecastData\<close>\<close>

record hist_point =
  hdate :: string
  hcases :: int

record forecast_record =
  fdate :: string
  fcases :: jsnum
  isForecast :: bool

text \<open>The \<^verbatim>\<open>forEach\<close> of lines 198-203, with the four running sums as its state; \<open>i\<close>
  is the array index.\<close>

fun forEach_sums ::
  "hist_point list \<Rightarrow> int \<Rightarrow> jsnum \<times> jsnum \<times> jsnum \<times> jsnum
     \<Rightarrow> jsnum \<times> jsnum \<times> jsnum \<times> jsnum" where
  "forEach_sums [] i acc = acc"
| "forEach_sums (d # ds) i (sumX, sumY, sumXY, sumX2) =
     forEach_sums ds (i + 1)
       (js_add sumX (num_of_int i),
        js_add sumY (num_of_int (hcases d)),
        js_add sumXY (js_mul (num_of_int i) (num_of_int (hcases d))),
        js_add sumX2 (js_mul (num_of_int i) (num_of_int i)))"

text \<open>Line 205: the divisor \<^verbatim>\<open>n * sumX2 - sumX * sumX\<close>, and \<open>m\<close>. The division is not
  guarded.\<close>

definition divisor :: "jsnum \<Rightarrow> jsnum \<Rightarrow> jsnum \<Rightarrow> jsnum" where
  "divisor n sumX sumX2 = js_sub (js_mul n sumX2) (js_mul sumX sumX)"

definition slope :: "jsnum \<Rightarrow> jsnum \<Rightarrow> jsnum \<Rightarrow> jsnum \<Rightarrow> jsnum \<Rightarrow> jsnum" where
  "slope n sumX sumY sumXY sumX2 =
     js_div (js_sub (js_mul n sumXY) (js_mul sumX sumY)) (divisor n sumX sumX2)"

text \<open>Line 206: \<open>b\<close>.\<close>

definition intercept :: "jsnum \<Rightarrow> jsnum \<Rightarrow> jsnum \<Rightarrow> jsnum \<Rightarrow> jsnum" where
  "intercept n sumX sumY m = js_div (js_sub sumY (js_mul m sumX)) n"

text \<open>Lines 192-206 together.\<close>

definition linear_fit :: "hist_point list \<Rightarrow> jsnum \<times> jsnum" where
  "linear_fit historicalData =
     (let (sumX, sumY, sumXY, sumX2) =
            forEach_sums historicalData 0 (Finite 0, Finite 0, Finite 0, Finite 0);
          n = num_of_int (int (length historicalData));
          m = slope n sumX sumY sumXY sumX2;
          b = intercept n sumX sumY m
      in (m, b))"

text \<open>Line 214: the regression value \<^verbatim>\<open>m * (n + i - 1) + b\<close>, and
  \<^verbatim>\<open>Math.max(0, Math.round(m * (n + i - 1) + b))\<close>.\<close>

definition raw_forecast :: "jsnum \<Rightarrow> jsnum \<Rightarrow> int \<Rightarrow> int \<Rightarrow> jsnum" where
  "raw_forecast m b n i =
     js_add (js_mul m (js_sub (js_add (num_of_int n) (num_of_int i)) (Finite 1))) b"

definition forecastedCases :: "jsnum \<Rightarrow> jsnum \<Rightarrow> int \<Rightarrow> int \<Rightarrow> jsnum" where
  "forecastedCases m b n i = Math_max (Finite 0) (Math_round (raw_forecast m b n i))"

text \<open>The body of the \<^verbatim>\<open>for\<close> loop, lines 212-219.\<close>

definition forecast_step ::
  "host \<Rightarrow> jsnum \<Rightarrow> jsnum \<Rightarrow> int \<Rightarrow> int option \<Rightarrow> int \<Rightarrow> js_error + forecast_record" where
  "forecast_step h m b n lastDate i =
     (let nextDate = setDate h lastDate (map_option (\<lambda>d. d + i) (getDate h lastDate));
          cs = forecastedCases m b n i
      in case toISOString nextDate of
           Inl e \<Rightarrow> Inl e
         | Inr s \<Rightarrow> Inr \<lparr>fdate = split_T_0 s, fcases = cs, isForecast = True\<rparr>)"

text \<open>The loop: it pushes one record per index, and an exception ends the call.\<close>

fun forecast_loop ::
  "(int \<Rightarrow> js_error + forecast_record) \<Rightarrow> int list \<Rightarrow> js_error + forecast_record list" where
  "forecast_loop body [] = Inr []"
| "forecast_loop body (i # ks) =
     (case body i of
        Inl e \<Rightarrow> Inl e
      | Inr r \<Rightarrow> (case forecast_loop body ks of Inl e \<Rightarrow> Inl e | Inr rs \<Rightarrow> Inr (r # rs)))"

text \<open>The history is an array of points or null/undefined (\<open>None\<close>); the horizon is an
  integer (7 when the caller gives none; the one caller gives 14), and the loop runs over
  \<open>1, ..., daysToForecast\<close>.\<close>

definition forecastData ::
  "host \<Rightarrow> hist_point list option \<Rightarrow> int \<Rightarrow> js_error + forecast_record list" where
  "forecastData h historicalData daysToForecast =
     (case historicalData of
        None \<Rightarrow> Inr []
      | Some hist \<Rightarrow>
          if length hist < 10 then Inr []
          else
            (let (m, b) = linear_fit hist;
                 n = int (length hist);
                 lastDate = Date_new h (hdate (hist ! (length hist - 1)))
             in forecast_loop (forecast_step h m b n lastDate) [1..daysToForecast]))"

subsection \<open>Notions used in the statements\<close>

text \<open>The time value \<^verbatim>\<open>nextDate\<close> holds after line 213, before \<open>TimeClip\<close>: the local
  time of the last date, \<open>i\<close> days later, read back as a UTC instant.\<close>

definition forecast_time :: "host \<Rightarrow> int \<Rightarrow> int \<Rightarrow> int" where
  "forecast_time h t i = UTC_time h (LocalTime h t + i * msPerDay)"

text \<open>The order of two date strings, as the dates they denote on host \<open>h\<close>; a string
  that is no date is not comparable.\<close>

definition date_le :: "host \<Rightarrow> string \<Rightarrow> string \<Rightarrow> bool" where
  "date_le h a b =
     (case (Date_new h a, Date_new h b) of
        (Some x, Some y) \<Rightarrow> x \<le> y
      | _ \<Rightarrow> False)"

text \<open>A host whose offset from UTC grows by at most a day from one local day to the next.
  A change to or from daylight saving time (an hour) and a move of a zone across the date
  line (a day) both keep a host steady.\<close>

definition steady_host :: "host \<Rightarrow> bool" where
  "steady_host h = (\<forall>x. tza_local h (x + msPerDay) \<le> tza_local h x + msPerDay)"

text \<open>The value of a series at a date as the specification words it: the stored value, or
  0 when the series is absent or lacks the date.\<close>

definition spec_value :: "series option \<Rightarrow> string \<Rightarrow> int" where
  "spec_value data d =
     (case data of
        None \<Rightarrow> 0
      | Some obj \<Rightarrow> (case map_of obj d of None \<Rightarrow> 0 | Some v \<Rightarrow> v))"

text \<open>The record that the loop pushes for index \<open>k\<close>, when the last date has time value
  \<open>t\<close> and the forecast date is within range.\<close>

definition forecast_record_at :: "host \<Rightarrow> hist_point list \<Rightarrow> int \<Rightarrow> int \<Rightarrow> forecast_record" where
  "forecast_record_at h hist t k =
     \<lparr>fdate = format_civil (civil_of_day (Day (forecast_time h t k))),
      fcases = forecastedCases (fst (linear_fit hist)) (snd (linear_fit hist))
                 (int (length hist)) k,
      isForecast = True\<rparr>"

text \<open>The regression value of line 214 for a history and a loop index \<open>k\<close>, before
  \<^verbatim>\<open>Math.round\<close> and \<^verbatim>\<open>Math.max\<close>.\<close>

definition raw_at :: "hist_point list \<Rightarrow> int \<Rightarrow> jsnum" where
  "raw_at hist k =
     raw_forecast (fst (linear_fit hist)) (snd (linear_fit hist)) (int (length hist)) k"

text \<open>Two series of one country, with different dates and in no particular order; the
  second writes one year in the six-digit form, which sorts before every four-digit year as
  a string and is a date of 2021 all the same.\<close>

definition cases_series :: series where
  "cases_series = [(''2021-01-03'', 5), (''2021-01-01'', 7)]"

definition vaccine_series :: series where
  "vaccine_series = [(''+002021-01-02'', 1), (''2021-01-01'', 2)]"

text \<open>Two histories of ten points: the perfectly linear one of the specification's example,
  \<open>cases[i] = 100 + 10 i\<close>, ending on 2021-01-30, and a flat one ending on 2021-03-13,
  the day before the clocks of New York went forward.\<close>

definition linear_history :: "hist_point list" where
  "linear_history =
     [\<lparr>hdate = ''2021-01-21'', hcases = 100\<rparr>, \<lparr>hdate = ''2021-01-22'', hcases = 110\<rparr>,
      \<lparr>hdate = ''2021-01-23'', hcases = 120\<rparr>, \<lparr>hdate = ''2021-01-24'', hcases = 130\<rparr>,
      \<lparr>hdate = ''2021-01-25'', hcases = 140\<rparr>, \<lparr>hdate = ''2021-01-26'', hcases = 150\<rparr>,
      \<lparr>hdate = ''2021-01-27'', hcases = 160\<rparr>, \<lparr>hdate = ''2021-01-28'', hcases = 170\<rparr>,
      \<lparr>hdate = ''2021-01-29'', hcases = 180\<rparr>, \<lparr>hdate = ''2021-01-30'', hcases = 190\<rparr>]"

definition march_history :: "hist_point list" where
  "march_history =
     [\<lparr>hdate = ''2021-03-04'', hcases = 5\<rparr>, \<lparr>hdate = ''2021-03-05'', hcases = 5\<rparr>,
      \<lparr>hdate = ''2021-03-06'', hcases = 5\<rparr>, \<lparr>hdate = ''2021-03-07'', hcases = 5\<rparr>,
      \<lparr>hdate = ''2021-03-08'', hcases = 5\<rparr>, \<lparr>hdate = ''2021-03-09'', hcases = 5\<rparr>,
      \<lparr>hdate = ''2021-03-10'', hcases = 5\<rparr>, \<lparr>hdate = ''2021-03-11'', hcases = 5\<rparr>,
      \<lparr>hdate = ''2021-03-12'', hcases = 5\<rparr>, \<lparr>hdate = ''2021-03-13'', hcases = 5\<rparr>]"

text \<open>A history of eleven points whose least-squares line takes the value \<open>27/2\<close> at the
  second forecast step.\<close>

definition noisy_history :: "hist_point list" where
  "noisy_history =
     [\<lparr>hdate = ''2021-01-20'', hcases = 21\<rparr>, \<lparr>hdate = ''2021-01-21'', hcases = 10\<rparr>,
      \<lparr>hdate = ''2021-01-22'', hcases = 13\<rparr>, \<lparr>hdate = ''2021-01-23'', hcases = 12\<rparr>,
      \<lparr>hdate = ''2021-01-24'', hcases = 27\<rparr>, \<lparr>hdate = ''2021-01-25'', hcases = 29\<rparr>,
      \<lparr>hdate = ''2021-01-26'', hcases = 6\<rparr>, \<lparr>hdate = ''2021-01-27'', hcases = 15\<rparr>,
      \<lparr>hdate = ''2021-01-28'', hcases = 9\<rparr>, \<lparr>hdate = ''2021-01-29'', hcases = 18\<rparr>,
      \<lparr>hdate = ''2021-01-30'', hcases = 13\<rparr>]"

text \<open>A history of ten points whose counts are all \<open>2^1023\<close>, a binary64 value: the sum of
  two of them is beyond the largest finite number.\<close>

definition huge :: int where
  "huge = 2 ^ 1023"

definition overflow_history :: "hist_point list" where
  "overflow_history =
     [\<lparr>hdate = ''2021-01-21'', hcases = huge\<rparr>, \<lparr>hdate = ''2021-01-22'', hcases = huge\<rparr>,
      \<lparr>hdate = ''2021-01-23'', hcases = huge\<rparr>, \<lparr>hdate = ''2021-01-24'', hcases = huge\<rparr>,
      \<lparr>hdate = ''2021-01-25'', hcases = huge\<rparr>, \<lparr>hdate = ''2021-01-26'', hcases = huge\<rparr>,
      \<lparr>hdate = ''2021-01-27'', hcases = huge\<rparr>, \<lparr>hdate = ''2021-01-28'', hcases = huge\<rparr>,
      \<lparr>hdate = ''2021-01-29'', hcases = huge\<rparr>, \<lparr>hdate = ''2021-01-30'', hcases = huge\<rparr>]"

subsection \<open>Notions used in the error analysis\<close>

text \<open>The unit roundoff of binary64 is \<open>2^-53\<close>. A rational \<open>v\<close> is near an exact value
  \<open>x\<close> after \<open>k\<close> roundings when it lies between \<open>x (1 - 2^-53)^k\<close> and
  \<open>x (1 + 2^-53)^k\<close>; a number is near \<open>x\<close> when it is finite and its value is.\<close>

definition unit_roundoff :: rat where
  "unit_roundoff = pow2 (- 53)"

definition near :: "nat \<Rightarrow> rat \<Rightarrow> rat \<Rightarrow> bool" where
  "near k x v \<longleftrightarrow> x * (1 - unit_roundoff) ^ k \<le> v \<and> v \<le> x * (1 + unit_roundoff) ^ k"

definition near_num :: "nat \<Rightarrow> rat \<Rightarrow> jsnum \<Rightarrow> bool" where
  "near_num k x a = (case a of Finite v \<Rightarrow> near k x v | _ \<Rightarrow> False)"

text \<open>The exact sums the loop approximates: \<open>0 + 1 + ... + (j - 1)\<close> and
  \<open>0\<^sup>2 + 1\<^sup>2 + ... + (j - 1)\<^sup>2\<close> in closed form, and the sum of \<open>index * cases\<close> over
  a part of the history that starts at index \<open>j\<close>.\<close>

definition index_sum :: "nat \<Rightarrow> rat" where
  "index_sum j = of_nat j * (of_nat j - 1) / 2"

definition index_square_sum :: "nat \<Rightarrow> rat" where
  "index_square_sum j = (of_nat j - 1) * of_nat j * (2 * of_nat j - 1) / 6"

fun weighted_sum :: "nat \<Rightarrow> hist_point list \<Rightarrow> int" where
  "weighted_sum j [] = 0"
| "weighted_sum j (d # ds) = int j * hcases d + weighted_sum (Suc j) ds"

text \<open>A number is bounded by \<open>2^e\<close> when it is finite and its magnitude is at most
  \<open>2^e\<close>.\<close>

definition bounded :: "int \<Rightarrow> jsnum \<Rightarrow> bool" where
  "bounded e a = (case a of Finite v \<Rightarrow> \<bar>v\<bar> \<le> pow2 e | _ \<Rightarrow> False)"

section \<open>Properties of the calendar\<close>

text \<open>The closed form of the day number agrees with stepping the calendar, so that
  \<open>civil_of_day\<close> and \<open>day_of_civil\<close> are inverse to each other on calendar dates.\<close>

lemma div_succ:
  fixes a k :: int
  assumes k: "0 < k"
  shows "(a + 1) div k = a div k + (if (a + 1) mod k = 0 then 1 else 0)"
proof -
  have a: "a = k * (a div k) + a mod k" by simp
  have r: "0 \<le> a mod k" "a mod k < k" using k by simp_all
  show ?thesis
  proof (cases "a mod k + 1 = k")
    case True
    have "a + 1 = k * (a div k) + (a mod k + 1)" using a by linarith
    also have "\<dots> = k * (a div k + 1)" using True by (simp add: algebra_simps)
    finally have e: "a + 1 = (a div k + 1) * k" by (simp add: mult.commute)
    have "(a + 1) div k = a div k + 1" using k unfolding e by simp
    moreover have "(a + 1) mod k = 0" unfolding e by simp
    ultimately show ?thesis by simp
  next
    case False
    then have lt: "a mod k + 1 < k" using r by linarith
    have e: "a + 1 = (a mod k + 1) + (a div k) * k" using a by (simp add: mult.commute)
    have "(a + 1) div k = (a mod k + 1) div k + a div k"
      using k unfolding e by (subst div_mult_self1) simp_all
    moreover have "(a mod k + 1) div k = 0" using lt r by (simp add: div_pos_pos_trivial)
    moreover have "(a + 1) mod k = (a mod k + 1) mod k" by (simp add: mod_add_left_eq)
    moreover have "(a mod k + 1) mod k = a mod k + 1" using lt r by (simp add: mod_pos_pos_trivial)
    ultimately show ?thesis using r by auto
  qed
qed

lemma DayFromYear_Suc: "DayFromYear (y + 1) = DayFromYear y + (if leap y then 366 else 365)"
proof -
  have m4: "(y - 1968) mod 4 = y mod 4" using mod_mult_self1[of y "-492" 4] by simp
  have m100: "(y - 1900) mod 100 = y mod 100" using mod_mult_self1[of y "-19" 100] by simp
  have m400: "(y - 1600) mod 400 = y mod 400" using mod_mult_self1[of y "-4" 400] by simp
  have a: "(y - 1968) div 4 = (y - 1969) div 4 + (if y mod 4 = 0 then 1 else 0)"
    using div_succ[of 4 "y - 1969"] by (simp add: m4)
  have b: "(y - 1900) div 100 = (y - 1901) div 100 + (if y mod 100 = 0 then 1 else 0)"
    using div_succ[of 100 "y - 1901"] by (simp add: m100)
  have c: "(y - 1600) div 400 = (y - 1601) div 400 + (if y mod 400 = 0 then 1 else 0)"
    using div_succ[of 400 "y - 1601"] by (simp add: m400)
  have d: "y mod 100 = 0 \<Longrightarrow> y mod 4 = 0" by presburger
  have e: "y mod 400 = 0 \<Longrightarrow> y mod 100 = 0"
    by (metis mod_mod_cancel dvd_triv_left mod_0 numeral_Bit0 mult_2 mult.commute)
  have s: "y + 1 - 1969 = y - 1968" "y + 1 - 1901 = y - 1900" "y + 1 - 1601 = y - 1600"
    by simp_all
  have "DayFromYear (y + 1) =
      365 * (y + 1 - 1970) + (y - 1968) div 4 - (y - 1900) div 100 + (y - 1600) div 400"
    unfolding DayFromYear_def s ..
  also have "\<dots> = DayFromYear y + 365 + (if y mod 4 = 0 then 1 else 0)
      - (if y mod 100 = 0 then 1 else 0) + (if y mod 400 = 0 then 1 else 0)"
    unfolding a b c DayFromYear_def by simp
  also have "\<dots> = DayFromYear y + (if leap y then 366 else 365)"
    unfolding leap_def using d e
    by (cases "y mod 4 = 0"; cases "y mod 100 = 0"; cases "y mod 400 = 0") simp_all
  finally show ?thesis .
qed

lemma DayFromYear_mono: "y \<le> y' \<Longrightarrow> DayFromYear y \<le> DayFromYear y'"
proof (induction y' rule: int_ge_induct)
  case base
  show ?case by simp
next
  case (step i)
  then show ?case using DayFromYear_Suc[of i] by (simp split: if_splits)
qed

lemma days_in_month_bounds: "28 \<le> days_in_month y m" "days_in_month y m \<le> 31"
  by (simp_all add: days_in_month_def)

lemma days_in_month_12: "days_in_month y 12 = 31"
  by (simp add: days_in_month_def)

lemma days_before_month_Suc:
  assumes "1 \<le> m" "m < 12"
  shows "days_before_month y (m + 1) = days_before_month y m + days_in_month y m"
proof -
  from assms have "m = 1 \<or> m = 2 \<or> m = 3 \<or> m = 4 \<or> m = 5 \<or> m = 6 \<or> m = 7 \<or> m = 8
      \<or> m = 9 \<or> m = 10 \<or> m = 11"
    by arith
  then show ?thesis
    by (elim disjE) (simp_all add: days_before_month_def days_in_month_def)
qed

lemma days_before_month_12: "days_before_month y 12 + 31 = (if leap y then 366 else 365)"
  by (simp add: days_before_month_def)

lemma days_before_month_1: "days_before_month y 1 = 0"
  by (simp add: days_before_month_def)

lemma days_before_month_mono:
  "m \<le> m' \<Longrightarrow> 1 \<le> m \<Longrightarrow> m' \<le> 12 \<Longrightarrow> days_before_month y m \<le> days_before_month y m'"
proof (induction m' rule: int_ge_induct)
  case base
  show ?case by simp
next
  case (step i)
  then show ?case
    using days_before_month_Suc[of i y] days_in_month_bounds(1)[of y i] by simp
qed

lemma valid_next_day: "valid_civil c \<Longrightarrow> valid_civil (next_day c)"
  using days_in_month_bounds by (cases c) (auto simp: order_trans[of 1 28])

lemma valid_prev_day: "valid_civil c \<Longrightarrow> valid_civil (prev_day c)"
  using days_in_month_bounds by (cases c) (auto simp: order_trans[of 1 28] days_in_month_12)

lemma day_of_civil_next:
  assumes v: "valid_civil c"
  shows "day_of_civil (next_day c) = day_of_civil c + 1"
proof (cases c)
  case (fields y m d)
  show ?thesis
  proof (cases "d < days_in_month y m")
    case True
    then show ?thesis using fields by simp
  next
    case False
    then have d: "d = days_in_month y m" using v fields by simp
    show ?thesis
    proof (cases "m < 12")
      case True
      then show ?thesis using v fields d by (simp add: days_before_month_Suc)
    next
      case False
      then have m: "m = 12" using v fields by simp
      show ?thesis using fields d m days_before_month_12[of y]
        by (simp add: DayFromYear_Suc days_before_month_1 days_in_month_12)
    qed
  qed
qed

lemma prev_next_day: "valid_civil c \<Longrightarrow> prev_day (next_day c) = c"
  by (cases c) (auto simp: days_in_month_12)

lemma next_prev_day: "valid_civil c \<Longrightarrow> next_day (prev_day c) = c"
  using days_in_month_bounds by (cases c) (auto simp: days_in_month_12)

lemma day_of_civil_prev: "valid_civil c \<Longrightarrow> day_of_civil (prev_day c) = day_of_civil c - 1"
  using day_of_civil_next[of "prev_day c"] by (simp add: valid_prev_day next_prev_day)

lemma funpow_next_day:
  "valid_civil c \<Longrightarrow>
     valid_civil ((next_day ^^ k) c)
     \<and> day_of_civil ((next_day ^^ k) c) = day_of_civil c + int k"
  by (induction k) (simp_all add: valid_next_day day_of_civil_next)

lemma funpow_prev_day:
  "valid_civil c \<Longrightarrow>
     valid_civil ((prev_day ^^ k) c)
     \<and> day_of_civil ((prev_day ^^ k) c) = day_of_civil c - int k"
  by (induction k) (simp_all add: valid_prev_day day_of_civil_prev)

lemma day_of_civil_epoch: "day_of_civil (1970, 1, 1) = 0"
  by (simp add: DayFromYear_def days_before_month_def)

lemma valid_epoch: "valid_civil (1970, 1, 1)"
  by (simp add: days_in_month_def)

lemma valid_civil_of_day: "valid_civil (civil_of_day n)"
  unfolding civil_of_day_def
  using funpow_next_day[OF valid_epoch] funpow_prev_day[OF valid_epoch] by simp

lemma day_of_civil_of_day: "day_of_civil (civil_of_day n) = n"
  unfolding civil_of_day_def
  using funpow_next_day[OF valid_epoch] funpow_prev_day[OF valid_epoch]
  by (simp add: day_of_civil_epoch del: day_of_civil.simps)

lemma day_in_year_bounds:
  assumes "valid_civil (y, m, d)"
  shows "0 \<le> days_before_month y m + d - 1"
    and "days_before_month y m + d - 1 < (if leap y then 366 else 365)"
proof -
  have m: "1 \<le> m" "m \<le> 12" and d: "1 \<le> d" "d \<le> days_in_month y m"
    using assms by simp_all
  have "days_before_month y 1 \<le> days_before_month y m"
    using m by (intro days_before_month_mono) simp_all
  then show "0 \<le> days_before_month y m + d - 1" using d by (simp add: days_before_month_1)
  show "days_before_month y m + d - 1 < (if leap y then 366 else 365)"
  proof (cases "m < 12")
    case True
    have "days_before_month y (m + 1) \<le> days_before_month y 12"
      using m True by (intro days_before_month_mono) simp_all
    then show ?thesis
      using days_before_month_Suc[of m y] days_before_month_12[of y] m True d
      by (simp split: if_splits)
  next
    case False
    then have "m = 12" using m by simp
    then show ?thesis
      using days_before_month_12[of y] d by (simp add: days_in_month_12 split: if_splits)
  qed
qed

lemma year_bracket:
  assumes "valid_civil (y, m, d)"
  shows "DayFromYear y \<le> day_of_civil (y, m, d)"
    and "day_of_civil (y, m, d) < DayFromYear (y + 1)"
  using day_in_year_bounds[OF assms] by (simp_all add: DayFromYear_Suc split: if_splits)

lemma day_of_civil_inj:
  assumes "valid_civil c" "valid_civil c'" "day_of_civil c = day_of_civil c'"
  shows "c = c'"
proof (cases c, cases c')
  fix y m d y' m' d'
  assume c: "c = (y, m, d)" and c': "c' = (y', m', d')"
  have v: "valid_civil (y, m, d)" "valid_civil (y', m', d')" using assms c c' by simp_all
  have e: "day_of_civil (y, m, d) = day_of_civil (y', m', d')" using assms c c' by simp
  have "\<not> y < y'"
  proof
    assume "y < y'"
    then have "DayFromYear (y + 1) \<le> DayFromYear y'" by (intro DayFromYear_mono) simp
    then show False using year_bracket(2)[OF v(1)] year_bracket(1)[OF v(2)] e by simp
  qed
  moreover have "\<not> y' < y"
  proof
    assume "y' < y"
    then have "DayFromYear (y' + 1) \<le> DayFromYear y" by (intro DayFromYear_mono) simp
    then show False using year_bracket(2)[OF v(2)] year_bracket(1)[OF v(1)] e by simp
  qed
  ultimately have y: "y = y'" by simp
  have e2: "days_before_month y m + d = days_before_month y m' + d'" using e y by simp
  have lt: "\<not> a < b" if "valid_civil (y, a, p)" "valid_civil (y, b, q)"
     "days_before_month y a + p = days_before_month y b + q" for a b p q
  proof
    assume "a < b"
    then have "days_before_month y (a + 1) \<le> days_before_month y b"
      using that by (intro days_before_month_mono) simp_all
    then show False using days_before_month_Suc[of a y] that \<open>a < b\<close> by simp
  qed
  have "\<not> m < m'" using lt[OF v(1) v(2)[folded y] e2] .
  moreover have "\<not> m' < m" using lt[OF v(2)[folded y] v(1) e2[symmetric]] .
  ultimately have m: "m = m'" by simp
  then show ?thesis using y e2 c c' by simp
qed

lemma civil_of_day_of_civil: "valid_civil c \<Longrightarrow> civil_of_day (day_of_civil c) = c"
  by (rule day_of_civil_inj) (simp_all add: valid_civil_of_day day_of_civil_of_day)

lemma civil_of_day_eqI: "valid_civil c \<Longrightarrow> day_of_civil c = n \<Longrightarrow> civil_of_day n = c"
  using civil_of_day_of_civil by blast

lemma civil_of_day_add: "civil_of_day (n + int k) = (next_day ^^ k) (civil_of_day n)"
  by (rule civil_of_day_eqI)
     (simp_all add: funpow_next_day[OF valid_civil_of_day] day_of_civil_of_day)

lemma year_of_day_bound:
  assumes "\<bar>n\<bar> \<le> 100000000"
  shows "\<bar>fst (civil_of_day n)\<bar> \<le> 999999"
proof (cases "civil_of_day n")
  case (fields y m d)
  have v: "valid_civil (y, m, d)" using valid_civil_of_day[of n] fields by simp
  have e: "day_of_civil (y, m, d) = n" using day_of_civil_of_day[of n] fields by simp
  have "\<not> 1000000 \<le> y"
  proof
    assume "1000000 \<le> y"
    then have "DayFromYear 1000000 \<le> DayFromYear y" by (rule DayFromYear_mono)
    moreover have "DayFromYear 1000000 = 364522972" by (simp add: DayFromYear_def)
    ultimately show False using year_bracket(1)[OF v] e assms by simp
  qed
  moreover have "\<not> y \<le> - 1000000"
  proof
    assume "y \<le> - 1000000"
    then have "DayFromYear (y + 1) \<le> DayFromYear (- 999999)" by (intro DayFromYear_mono) simp
    moreover have "DayFromYear (- 999999) = - 365961662" by (simp add: DayFromYear_def)
    ultimately show False using year_bracket(2)[OF v] e assms by simp
  qed
  ultimately show ?thesis using fields by simp
qed

section \<open>Printing and reading dates\<close>

text \<open>Reading a printed date back gives the date.\<close>

lemma digit_char_mem: "digit_char n \<in> set ''0123456789''"
  unfolding digit_char_def by (rule nth_mem) simp

lemma digit_of_digit_char: "digit_of (digit_char n) = Some (n mod 10)"
proof -
  have "n mod 10 < 10" by simp
  then have "n mod 10 = 0 \<or> n mod 10 = 1 \<or> n mod 10 = 2 \<or> n mod 10 = 3 \<or> n mod 10 = 4
      \<or> n mod 10 = 5 \<or> n mod 10 = 6 \<or> n mod 10 = 7 \<or> n mod 10 = 8 \<or> n mod 10 = 9"
    by arith
  then show ?thesis
    by (elim disjE) (simp_all add: digit_char_def digit_of_def)
qed

lemma length_pad_dec: "length (pad_dec n k) = n"
  by (induction n arbitrary: k) simp_all

lemma pad_dec_chars: "set (pad_dec n k) \<subseteq> set ''0123456789''"
proof (induction n arbitrary: k)
  case 0
  show ?case by simp
next
  case (Suc n)
  show ?case using Suc[of "k div 10"] digit_char_mem[of "k mod 10"] by simp
qed

lemma dec_of_append:
  "dec_of acc (xs @ ys) = (case dec_of acc xs of None \<Rightarrow> None | Some a \<Rightarrow> dec_of a ys)"
  by (induction xs arbitrary: acc) (simp_all split: option.splits)

lemma dec_of_pad_dec: "dec_of acc (pad_dec n k) = Some (acc * 10 ^ n + k mod 10 ^ n)"
proof (induction n arbitrary: k acc)
  case 0
  show ?case by simp
next
  case (Suc n)
  have "k mod (10 * 10 ^ n) = 10 * (k div 10 mod 10 ^ n) + k mod 10"
    by (rule mod_mult2_eq)
  then show ?case
    by (simp add: dec_of_append Suc digit_of_digit_char algebra_simps)
qed

lemma dec_of_pad_dec_small: "k < 10 ^ n \<Longrightarrow> dec_of 0 (pad_dec n k) = Some k"
  by (simp add: dec_of_pad_dec)

lemma parse_format_year:
  assumes "\<bar>y\<bar> \<le> 999999"
  shows "parse_year (format_year y) = Some y"
proof -
  consider "0 \<le> y \<and> y \<le> 9999" | "9999 < y" | "y < 0" by linarith
  then show ?thesis
  proof cases
    case 1
    then have "nat y < 10000" by arith
    then have "nat y < 10 ^ 4" by simp
    then show ?thesis using 1
      by (simp add: format_year_def parse_year_def length_pad_dec dec_of_pad_dec_small)
  next
    case 2
    then have "nat \<bar>y\<bar> < 1000000" using assms by arith
    then have "nat \<bar>y\<bar> < 10 ^ 6" by simp
    then show ?thesis using 2
      by (simp add: format_year_def parse_year_def length_pad_dec dec_of_pad_dec_small)
  next
    case 3
    then have "nat \<bar>y\<bar> < 1000000" using assms by arith
    then have "nat \<bar>y\<bar> < 10 ^ 6" by simp
    then show ?thesis using 3
      by (simp add: format_year_def parse_year_def length_pad_dec dec_of_pad_dec_small)
  qed
qed

lemma iso_civil_pieces:
  assumes "length b = 2" "length c = 2"
  shows "iso_civil (a @ CHR ''-'' # b @ CHR ''-'' # c) =
    (case (parse_year a, dec_of 0 b, dec_of 0 c) of
       (Some y, Some m, Some d) \<Rightarrow>
         if valid_civil (y, int m, int d) then Some (y, int m, int d) else None
     | _ \<Rightarrow> None)"
proof -
  let ?s = "a @ CHR ''-'' # b @ CHR ''-'' # c"
  have k: "length ?s - 6 = length a" and l: "6 \<le> length ?s" using assms by simp_all
  have p: "?s ! length a = CHR ''-''" "?s ! (length a + 3) = CHR ''-''"
    "take (length a) ?s = a" "take 2 (drop (length a + 1) ?s) = b"
    "drop (length a + 4) ?s = c"
    using assms by (simp_all add: nth_append)
  show ?thesis unfolding iso_civil_def Let_def k p using l by simp
qed

lemma iso_civil_format:
  assumes v: "valid_civil (y, m, d)" and y: "\<bar>y\<bar> \<le> 999999"
  shows "iso_civil (format_civil (y, m, d)) = Some (y, m, d)"
proof -
  have md: "1 \<le> m" "m \<le> 12" "1 \<le> d" "d \<le> 31"
    using v days_in_month_bounds(2)[of y m] by simp_all
  have pm: "dec_of 0 (pad_dec 2 (nat m)) = Some (nat m)"
    using md by (intro dec_of_pad_dec_small) simp
  have pd: "dec_of 0 (pad_dec 2 (nat d)) = Some (nat d)"
    using md by (intro dec_of_pad_dec_small) simp
  have "iso_civil (format_year y @ CHR ''-'' # pad_dec 2 (nat m) @ CHR ''-'' # pad_dec 2 (nat d))
      = Some (y, m, d)"
    using v md
    by (simp add: iso_civil_pieces length_pad_dec parse_format_year[OF y] pm pd
          del: pad_dec.simps)
  then show ?thesis by simp
qed

lemma format_civil_no_T: "CHR ''T'' \<notin> set (format_civil c)"
proof (cases c)
  case (fields y m d)
  have "CHR ''T'' \<notin> set (pad_dec n k)" for n k using pad_dec_chars[of n k] by auto
  then show ?thesis using fields by (simp add: format_year_def)
qed

lemma split_toISOString:
  assumes "toISOString (Some t) = Inr s"
  shows "split_T_0 s = format_civil (civil_of_day (Day t))"
proof -
  let ?d = "format_civil (civil_of_day (Day t))"
  let ?r = "''T'' @ format_time (TimeWithinDay t) @ ''Z''"
  have s: "s = ?d @ ?r" using assms by (simp add: toISOString_def)
  have "takeWhile (\<lambda>c. c \<noteq> CHR ''T'') (?d @ ?r) = ?d @ takeWhile (\<lambda>c. c \<noteq> CHR ''T'') ?r"
    by (rule takeWhile_append2) (use format_civil_no_T[of "civil_of_day (Day t)"] in auto)
  then show ?thesis unfolding split_T_0_def s by simp
qed

section \<open>\<^verbatim>\<open>Date\<close> arithmetic\<close>

text \<open>\<^verbatim>\<open>setDate(getDate() + i)\<close> moves the local time by \<open>i\<close> whole days: \<open>MakeDay\<close>
  rebuilds the day number of the local date and adds \<open>i\<close> to it.\<close>

lemma MakeDay_DateFromTime:
  "MakeDay (YearFromTime t) (MonthFromTime t) (DateFromTime t + i) = Day t + i"
proof (cases "civil_of_day (Day t)")
  case (fields y m d)
  have "day_of_civil (y, m, d) = Day t" using day_of_civil_of_day[of "Day t"] fields by simp
  then show ?thesis
    by (simp add: MakeDay_def YearFromTime_def MonthFromTime_def DateFromTime_def fields)
qed

lemma setDate_getDate:
  "setDate h (Some t) (map_option (\<lambda>d. d + i) (getDate h (Some t)))
     = TimeClip (forecast_time h t i)"
proof -
  have "MakeDate (Day (LocalTime h t) + i) (TimeWithinDay (LocalTime h t))
      = LocalTime h t + i * msPerDay"
    by (simp add: MakeDate_def Day_def TimeWithinDay_def algebra_simps)
  then show ?thesis
    by (simp add: setDate_def getDate_def forecast_time_def MakeDay_DateFromTime)
qed

lemma forecast_step_Some:
  assumes "TimeClip (forecast_time h t i) = Some u"
  shows "forecast_step h m b n (Some t) i =
    Inr \<lparr>fdate = format_civil (civil_of_day (Day u)), fcases = forecastedCases m b n i,
         isForecast = True\<rparr>"
proof -
  obtain s where s: "toISOString (Some u) = Inr s" by (simp add: toISOString_def)
  show ?thesis
    unfolding forecast_step_def Let_def setDate_getDate assms
    by (simp add: s split_toISOString[OF s])
qed

lemma TimeClip_Some: "TimeClip t = Some u \<Longrightarrow> u = t \<and> \<bar>t\<bar> \<le> 8640000000000000"
  by (simp add: TimeClip_def split: if_splits)

lemma forecast_step_None:
  "TimeClip (forecast_time h t i) = None \<Longrightarrow> forecast_step h m b n (Some t) i = Inl RangeError"
  unfolding forecast_step_def Let_def setDate_getDate by (simp add: toISOString_def)

lemma forecast_step_invalid: "forecast_step h m b n None i = Inl RangeError"
  by (simp add: forecast_step_def setDate_def toISOString_def)

lemma forecast_step_error: "forecast_step h m b n lastDate i = Inl e \<Longrightarrow> e = RangeError"
  by (auto simp: forecast_step_def toISOString_def split: option.splits)

text \<open>The loop returns exactly when every step does, with one record per index.\<close>

lemma forecast_loop_Inr:
  "forecast_loop body ks = Inr rs \<longleftrightarrow> list_all2 (\<lambda>k r. body k = Inr r) ks rs"
proof (induction ks arbitrary: rs)
  case Nil
  show ?case by auto
next
  case (Cons k ks)
  show ?case
    by (auto simp: list_all2_Cons1 Cons[symmetric] split: sum.splits)
qed

lemma forecast_loop_map:
  assumes "\<And>k. k \<in> set ks \<Longrightarrow> body k = Inr (f k)"
  shows "forecast_loop body ks = Inr (map f ks)"
  unfolding forecast_loop_Inr using assms by (induction ks) simp_all

lemma forecast_loop_Inl:
  assumes "k \<in> set ks" "body k = Inl e" "\<And>j e'. body j = Inl e' \<Longrightarrow> e' = e"
  shows "forecast_loop body ks = Inl e"
proof (cases "forecast_loop body ks")
  case (Inl e')
  have "\<exists>j. body j = Inl e'" using Inl
    by (induction ks) (auto split: sum.splits)
  then show ?thesis using Inl assms(3) by auto
next
  case (Inr rs)
  then have "list_all2 (\<lambda>k r. body k = Inr r) ks rs" by (simp add: forecast_loop_Inr)
  then obtain r where "body k = Inr r" using assms(1)
    by (auto simp: list_all2_conv_all_nth in_set_conv_nth)
  then show ?thesis using assms(2) by simp
qed

section \<open>Sorting and deduplication\<close>

lemma set_insert_by: "set (insert_by cmp x ys) = insert x (set ys)"
  by (induction ys) auto

lemma set_Array_sort: "set (Array_sort cmp xs) = set xs"
  unfolding Array_sort_def by (induction xs) (simp_all add: set_insert_by)

text \<open>When the comparator is the difference of integer keys, insertion keeps a list sorted
  by key.\<close>

lemma sorted_insert_by:
  assumes "\<And>y. y \<in> set ys \<Longrightarrow> (cmp x y \<le> 0) = (key x \<le> key y)"
    and "sorted_wrt (\<lambda>a b. key a \<le> (key b :: int)) ys"
  shows "sorted_wrt (\<lambda>a b. key a \<le> key b) (insert_by cmp x ys)"
  using assms
proof (induction ys)
  case Nil
  show ?case by simp
next
  case (Cons y ys)
  show ?case
  proof (cases "cmp x y \<le> 0")
    case True
    then have "key x \<le> key y" using Cons.prems(1)[of y] by simp
    then show ?thesis using True Cons.prems(2) by auto
  next
    case False
    then have "key y \<le> key x" using Cons.prems(1)[of y] by simp
    moreover have "sorted_wrt (\<lambda>a b. key a \<le> key b) (insert_by cmp x ys)"
      using Cons by simp
    ultimately show ?thesis using False Cons.prems(2) by (auto simp: set_insert_by)
  qed
qed

lemma sorted_Array_sort:
  assumes "\<And>x y. x \<in> set xs \<Longrightarrow> y \<in> set xs \<Longrightarrow> (cmp x y \<le> 0) = (key x \<le> key y)"
  shows "sorted_wrt (\<lambda>a b. key a \<le> (key b :: int)) (Array_sort cmp xs)"
  using assms
proof (induction xs)
  case Nil
  show ?case by (simp add: Array_sort_def)
next
  case (Cons x xs)
  have "sorted_wrt (\<lambda>a b. key a \<le> key b) (Array_sort cmp xs)"
    using Cons by simp
  then have "sorted_wrt (\<lambda>a b. key a \<le> key b) (insert_by cmp x (Array_sort cmp xs))"
    using Cons.prems by (intro sorted_insert_by) (simp_all add: set_Array_sort)
  then show ?case by (simp add: Array_sort_def)
qed

lemma set_Set_add: "set (Set_add acc x) = insert x (set acc)"
  by (auto simp: Set_add_def)

lemma set_foldl_Set_add: "set (foldl Set_add acc xs) = set acc \<union> set xs"
proof (induction xs arbitrary: acc)
  case Nil
  show ?case by simp
next
  case (Cons x xs)
  have "set (foldl Set_add (Set_add acc x) xs) = set (Set_add acc x) \<union> set xs"
    by (rule Cons.IH)
  then show ?case by (simp add: set_Set_add)
qed

lemma distinct_foldl_Set_add: "distinct acc \<Longrightarrow> distinct (foldl Set_add acc xs)"
proof (induction xs arbitrary: acc)
  case Nil
  then show ?case by simp
next
  case (Cons x xs)
  have "distinct (Set_add acc x)" using Cons.prems by (simp add: Set_add_def)
  then have "distinct (foldl Set_add (Set_add acc x) xs)" by (rule Cons.IH)
  then show ?case by simp
qed

lemma sorted_foldl_Set_add:
  "sorted_wrt P (acc @ xs) \<Longrightarrow> sorted_wrt P (foldl Set_add acc xs)"
proof (induction xs arbitrary: acc)
  case Nil
  then show ?case by simp
next
  case (Cons x xs)
  have "sorted_wrt P (Set_add acc x @ xs)"
    using Cons.prems by (auto simp: Set_add_def sorted_wrt_append)
  then have "sorted_wrt P (foldl Set_add (Set_add acc x) xs)" by (rule Cons.IH)
  then show ?case by simp
qed

lemma Set_from_props:
  "set (Set_from xs) = set xs"
  "distinct (Set_from xs)"
  "sorted_wrt P xs \<Longrightarrow> sorted_wrt P (Set_from xs)"
  unfolding Set_from_def
  by (simp_all add: set_foldl_Set_add distinct_foldl_Set_add sorted_foldl_Set_add)

section \<open>The aligned sequence\<close>

lemma dates_of_align:
  "map date (processHistoricalData h c r v) =
     Set_from (Array_sort (date_compare h) (Object_keys c @ Object_keys r @ Object_keys v))"
  by (simp add: processHistoricalData_def Let_def comp_def)

lemma align_dates_set:
  "set (map date (processHistoricalData h c r v)) =
     set (Object_keys c) \<union> set (Object_keys r) \<union> set (Object_keys v)"
  unfolding dates_of_align by (simp add: Set_from_props set_Array_sort Un_assoc)

lemma align_dates_distinct: "distinct (map date (processHistoricalData h c r v))"
  unfolding dates_of_align by (rule Set_from_props)

lemma align_record:
  assumes "r \<in> set (processHistoricalData h c rc v)"
  shows "r = \<lparr>date = date r, cases = value_or_0 c (date r),
              recovered = value_or_0 rc (date r), vaccines = value_or_0 v (date r)\<rparr>"
  using assms by (auto simp: processHistoricalData_def Let_def)

lemma value_or_0_spec: "value_or_0 data d = spec_value data d"
  by (simp add: value_or_0_def spec_value_def split: option.splits)

lemma spec_value_missing: "d \<notin> set (Object_keys data) \<Longrightarrow> spec_value data d = 0"
  by (auto simp: spec_value_def Object_keys_def map_of_eq_None_iff[symmetric]
           split: option.splits)

lemma date_compare_key:
  assumes "Date_new h a = Some x" "Date_new h b = Some y"
  shows "(date_compare h a b \<le> 0) = (x \<le> y)"
  using assms by (simp add: date_compare_def)

lemma align_sorted:
  assumes "\<forall>k \<in> set (Object_keys c @ Object_keys r @ Object_keys v). Date_new h k \<noteq> None"
  shows "sorted_wrt (date_le h) (map date (processHistoricalData h c r v))"
proof -
  let ?ks = "Object_keys c @ Object_keys r @ Object_keys v"
  let ?key = "\<lambda>k. the (Date_new h k)"
  have "sorted_wrt (\<lambda>a b. ?key a \<le> ?key b) (Array_sort (date_compare h) ?ks)"
  proof (rule sorted_Array_sort)
    fix x y assume "x \<in> set ?ks" "y \<in> set ?ks"
    then obtain tx ty where "Date_new h x = Some tx" "Date_new h y = Some ty"
      using assms by blast
    then show "(date_compare h x y \<le> 0) = (?key x \<le> ?key y)"
      by (simp add: date_compare_key)
  qed
  then have s: "sorted_wrt (\<lambda>a b. ?key a \<le> ?key b) (Set_from (Array_sort (date_compare h) ?ks))"
    by (rule Set_from_props)
  have "sorted_wrt (date_le h) (Set_from (Array_sort (date_compare h) ?ks))"
  proof (rule sorted_wrt_mono_rel[OF _ s])
    fix x y
    assume "x \<in> set (Set_from (Array_sort (date_compare h) ?ks))"
      and "y \<in> set (Set_from (Array_sort (date_compare h) ?ks))"
      and le: "?key x \<le> ?key y"
    then have "x \<in> set ?ks" "y \<in> set ?ks" by (simp_all only: Set_from_props set_Array_sort)
    then obtain tx ty where "Date_new h x = Some tx" "Date_new h y = Some ty"
      using assms by blast
    then show "date_le h x y" using le by (simp add: date_le_def)
  qed
  then show ?thesis unfolding dates_of_align .
qed

section \<open>Properties of binary64 rounding\<close>

lemma pow2_powi: "pow2 e = 2 powi e"
  by (simp add: pow2_def power_int_def inverse_eq_divide power_one_over)

lemma pow2_pos [simp]: "0 < pow2 e"
  by (simp add: pow2_powi)

lemma pow2_nonneg [simp]: "0 \<le> pow2 e"
  by (simp add: pow2_powi)

lemma pow2_nonzero [simp]: "pow2 e \<noteq> 0"
  by (simp add: pow2_powi)

lemma pow2_add: "pow2 (a + b) = pow2 a * pow2 b"
  by (simp add: pow2_powi power_int_add)

lemma pow2_diff: "pow2 (a - b) = pow2 a / pow2 b"
  using pow2_add[of "a - b" b] by (simp add: field_simps)

lemma pow2_le_iff [simp]: "pow2 a \<le> pow2 b \<longleftrightarrow> a \<le> b"
proof
  assume "a \<le> b"
  then show "pow2 a \<le> pow2 b" unfolding pow2_powi by (intro power_int_increasing) simp_all
next
  assume le: "pow2 a \<le> pow2 b"
  show "a \<le> b"
  proof (rule ccontr)
    assume "\<not> a \<le> b"
    then have "b < a" by simp
    then have "pow2 b < pow2 a" unfolding pow2_powi by (intro power_int_strict_increasing) simp_all
    then show False using le by simp
  qed
qed

lemma pow2_less_iff [simp]: "pow2 a < pow2 b \<longleftrightarrow> a < b"
  using pow2_le_iff[of b a] by (simp add: not_le[symmetric] del: pow2_le_iff)

lemma pow2_nat: "pow2 (int n) = 2 ^ n"
  by (simp add: pow2_def)

lemma pow2_0 [simp]: "pow2 0 = 1"
  by (simp add: pow2_def)

lemma pow2_1 [simp]: "pow2 1 = 2"
  by (simp add: pow2_def)

lemma pow2_Suc: "pow2 (e + 1) = 2 * pow2 e"
  by (simp add: pow2_add)

lemma ilog2_bounds:
  assumes "0 < x"
  shows "pow2 (ilog2 x) \<le> x" and "x < pow2 (ilog2 x + 1)"
proof -
  obtain a b where q: "quotient_of x = (a, b)" by (cases "quotient_of x")
  have b: "0 < b" using quotient_of_denom_pos[OF q] .
  have x: "x = of_int a / of_int b" using quotient_of_div[OF q] .
  have a: "0 < a" using assms b unfolding x by (simp add: zero_less_divide_iff)
  define ka kb where "ka = bitlen a" and "kb = bitlen b"
  have ka: "2 ^ nat (ka - 1) \<le> a" "a < 2 ^ nat ka"
    using bitlen_bounds[OF a] by (simp_all add: ka_def)
  have kb: "2 ^ nat (kb - 1) \<le> b" "b < 2 ^ nat kb"
    using bitlen_bounds[OF b] by (simp_all add: kb_def)
  have ka1: "1 \<le> ka" using a by (simp add: ka_def bitlen_alt_def)
  have kb1: "1 \<le> kb" using b by (simp add: kb_def bitlen_alt_def)
  have ra: "pow2 (ka - 1) \<le> of_int a" "of_int a < pow2 ka"
  proof -
    have "(of_int (2 ^ nat (ka - 1)) :: rat) \<le> of_int a" using ka(1) by (simp only: of_int_le_iff)
    then show "pow2 (ka - 1) \<le> of_int a" using ka1 by (simp add: pow2_def)
    have "(of_int a :: rat) < of_int (2 ^ nat ka)" using ka(2) by (simp only: of_int_less_iff)
    then show "of_int a < pow2 ka" using ka1 by (simp add: pow2_def)
  qed
  have rb: "pow2 (kb - 1) \<le> of_int b" "of_int b < pow2 kb"
  proof -
    have "(of_int (2 ^ nat (kb - 1)) :: rat) \<le> of_int b" using kb(1) by (simp only: of_int_le_iff)
    then show "pow2 (kb - 1) \<le> of_int b" using kb1 by (simp add: pow2_def)
    have "(of_int b :: rat) < of_int (2 ^ nat kb)" using kb(2) by (simp only: of_int_less_iff)
    then show "of_int b < pow2 kb" using kb1 by (simp add: pow2_def)
  qed
  have bpos: "(0::rat) < of_int b" using b by simp
  have lo: "pow2 (ka - kb - 1) \<le> x"
  proof -
    have "pow2 (ka - kb - 1) * of_int b \<le> pow2 (ka - kb - 1) * pow2 kb"
      using rb(2) by (intro mult_left_mono) simp_all
    also have "\<dots> = pow2 (ka - 1)" using pow2_add[of "ka - kb - 1" kb] by simp
    also have "\<dots> \<le> of_int a" by (rule ra(1))
    finally show ?thesis unfolding x using bpos by (simp add: pos_le_divide_eq)
  qed
  have hi: "x < pow2 (ka - kb + 1)"
  proof -
    have "of_int a < pow2 ka" by (rule ra(2))
    also have "\<dots> = pow2 (ka - kb + 1) * pow2 (kb - 1)"
      using pow2_add[of "ka - kb + 1" "kb - 1"] by simp
    also have "\<dots> \<le> pow2 (ka - kb + 1) * of_int b"
      using rb(1) by (intro mult_left_mono) simp_all
    finally show ?thesis unfolding x using bpos by (simp add: pos_divide_less_eq)
  qed
  have il: "ilog2 x = (if pow2 (ka - kb) \<le> x then ka - kb else ka - kb - 1)"
    by (simp add: ilog2_def q ka_def kb_def Let_def)
  show "pow2 (ilog2 x) \<le> x" using lo by (simp add: il)
  show "x < pow2 (ilog2 x + 1)" using hi by (simp add: il not_le)
qed

lemma ilog2_ge: "0 < x \<Longrightarrow> pow2 e \<le> x \<Longrightarrow> e \<le> ilog2 x"
proof -
  assume "0 < x" "pow2 e \<le> x"
  then have "pow2 e < pow2 (ilog2 x + 1)" using ilog2_bounds(2)[of x] by linarith
  then show ?thesis by simp
qed

lemma ilog2_less: "0 < x \<Longrightarrow> x < pow2 e \<Longrightarrow> ilog2 x < e"
proof -
  assume "0 < x" "x < pow2 e"
  then have "pow2 (ilog2 x) < pow2 e" using ilog2_bounds(1)[of x] by linarith
  then show ?thesis by simp
qed

lemma round_half_even_int [simp]: "round_half_even (of_int k) = k"
  by (simp add: round_half_even_def)

lemma round_half_even_error: "\<bar>of_int (round_half_even r) - r\<bar> \<le> 1 / 2"
proof -
  have "of_int \<lfloor>r\<rfloor> \<le> r" "r < of_int \<lfloor>r\<rfloor> + 1" by linarith+
  then show ?thesis by (auto simp: round_half_even_def Let_def)
qed

lemma round_half_even_ge: "of_int k \<le> r \<Longrightarrow> k \<le> round_half_even r"
proof -
  assume "of_int k \<le> r"
  then have "k \<le> \<lfloor>r\<rfloor>" by (simp add: le_floor_iff)
  then show ?thesis by (auto simp: round_half_even_def Let_def)
qed

lemma round_half_even_le: "r \<le> of_int k \<Longrightarrow> round_half_even r \<le> k"
proof -
  assume le: "r \<le> of_int k"
  have f: "of_int \<lfloor>r\<rfloor> \<le> r" by linarith
  show ?thesis
  proof (cases "\<lfloor>r\<rfloor> = k")
    case True
    then have "r = of_int \<lfloor>r\<rfloor>" using le f by simp
    then have "round_half_even r = \<lfloor>r\<rfloor>" by (metis round_half_even_int)
    then show ?thesis using True by simp
  next
    case False
    have "\<lfloor>r\<rfloor> \<le> k" using le by (simp add: floor_le_iff)
    then have "\<lfloor>r\<rfloor> + 1 \<le> k" using False by simp
    then show ?thesis by (auto simp: round_half_even_def Let_def)
  qed
qed

lemma nearest64_unfold:
  "nearest64 x =
     of_int (round_half_even (x / pow2 (max (ilog2 x) (- 1022) - 52)))
       * pow2 (max (ilog2 x) (- 1022) - 52)"
  by (simp add: nearest64_def Let_def)

lemma nearest64_error: "\<bar>nearest64 x - x\<bar> \<le> pow2 (max (ilog2 x) (- 1022) - 53)"
proof -
  define q where "q = pow2 (max (ilog2 x) (- 1022) - 52)"
  have q: "0 < q" by (simp add: q_def)
  have h: "pow2 (max (ilog2 x) (- 1022) - 53) = q / 2"
    using pow2_Suc[of "max (ilog2 x) (- 1022) - 53"] by (simp add: q_def)
  have "\<bar>of_int (round_half_even (x / q)) - x / q\<bar> \<le> 1 / 2" by (rule round_half_even_error)
  then have "\<bar>of_int (round_half_even (x / q)) - x / q\<bar> * q \<le> 1 / 2 * q"
    using q by (intro mult_right_mono) simp_all
  moreover have "\<bar>of_int (round_half_even (x / q)) - x / q\<bar> * q
      = \<bar>of_int (round_half_even (x / q)) * q - x\<bar>"
  proof -
    have "\<bar>of_int (round_half_even (x / q)) - x / q\<bar> * q
        = \<bar>(of_int (round_half_even (x / q)) - x / q) * q\<bar>"
      using q by (simp add: abs_mult)
    also have "(of_int (round_half_even (x / q)) - x / q) * q
        = of_int (round_half_even (x / q)) * q - x"
      using q by (simp add: algebra_simps)
    finally show ?thesis .
  qed
  ultimately show ?thesis unfolding h nearest64_unfold q_def[symmetric] by simp
qed

lemma nearest64_nonneg: "0 \<le> x \<Longrightarrow> 0 \<le> nearest64 x"
proof -
  assume "0 \<le> x"
  then have "of_int 0 \<le> x / pow2 (max (ilog2 x) (- 1022) - 52)" by simp
  then have "0 \<le> round_half_even (x / pow2 (max (ilog2 x) (- 1022) - 52))"
    by (rule round_half_even_ge)
  then show ?thesis unfolding nearest64_unfold by simp
qed

text \<open>A number with a significand below \<open>2^53\<close> and an exponent of at least \<open>-1074\<close> is
  a binary64 value, and rounding leaves it as it is.\<close>

lemma nearest64_exact:
  assumes "0 < m" "m < 2 ^ 53" "- 1074 \<le> k"
  shows "nearest64 (of_int m * pow2 k) = of_int m * pow2 k"
proof -
  define x where "x = (of_int m :: rat) * pow2 k"
  define e where "e = max (ilog2 x) (- 1022)"
  have xpos: "0 < x" using assms(1) by (simp add: x_def)
  have "(of_int m :: rat) < of_int (2 ^ 53)" using assms(2) by (simp only: of_int_less_iff)
  then have "(of_int m :: rat) < pow2 53" by (simp add: pow2_def)
  then have "x < pow2 53 * pow2 k" unfolding x_def by (intro mult_strict_right_mono) simp_all
  then have "x < pow2 (53 + k)" by (simp add: pow2_add)
  then have "ilog2 x < 53 + k" using xpos by (rule ilog2_less[rotated])
  then have e: "e \<le> 52 + k" using assms(3) by (simp add: e_def)
  define d where "d = nat (52 + k - e)"
  have d: "int d = 52 + k - e" using e by (simp add: d_def)
  have "pow2 k = pow2 (int d) * pow2 (e - 52)"
    using pow2_add[of "int d" "e - 52"] by (simp add: d)
  then have "x / pow2 (e - 52) = of_int m * pow2 (int d)" by (simp add: x_def)
  also have "\<dots> = of_int (m * 2 ^ d)" by (simp add: pow2_nat)
  finally have "round_half_even (x / pow2 (e - 52)) = m * 2 ^ d"
    by (simp only: round_half_even_int)
  then have "nearest64 x = of_int (m * 2 ^ d) * pow2 (e - 52)"
    unfolding nearest64_unfold e_def by simp
  also have "\<dots> = of_int m * (pow2 (int d) * pow2 (e - 52))" by (simp add: pow2_nat)
  also have "\<dots> = of_int m * pow2 k" using pow2_add[of "int d" "e - 52"] by (simp add: d)
  finally show ?thesis by (simp add: x_def)
qed

lemma nearest64_le_binade:
  assumes "0 < x"
  shows "nearest64 x \<le> pow2 (max (ilog2 x) (- 1022) + 1)"
proof -
  define e where "e = max (ilog2 x) (- 1022)"
  have "x < pow2 (ilog2 x + 1)" using assms by (rule ilog2_bounds)
  also have "\<dots> \<le> pow2 (e + 1)" by (simp add: e_def)
  finally have "x / pow2 (e - 52) \<le> pow2 (e + 1) / pow2 (e - 52)"
    by (intro divide_right_mono) simp_all
  also have "\<dots> = pow2 53" using pow2_diff[of "e + 1" "e - 52"] by simp
  also have "\<dots> = of_int (2 ^ 53)" by (simp add: pow2_def)
  finally have "round_half_even (x / pow2 (e - 52)) \<le> 2 ^ 53" by (rule round_half_even_le)
  then have "(of_int (round_half_even (x / pow2 (e - 52))) :: rat) \<le> of_int (2 ^ 53)"
    by (simp only: of_int_le_iff)
  then have "nearest64 x \<le> of_int (2 ^ 53) * pow2 (e - 52)"
    unfolding nearest64_unfold e_def by (intro mult_right_mono) simp_all
  also have "\<dots> = pow2 53 * pow2 (e - 52)" by (simp add: pow2_def)
  also have "\<dots> = pow2 (e + 1)" using pow2_add[of 53 "e - 52"] by (simp add: add.commute)
  finally show ?thesis by (simp add: e_def)
qed

lemma nearest64_ge_binade:
  assumes "0 < x" "- 1022 \<le> ilog2 x"
  shows "pow2 (ilog2 x) \<le> nearest64 x"
proof -
  define e where "e = ilog2 x"
  have m: "max (ilog2 x) (- 1022) = e" using assms(2) by (simp add: e_def)
  have "pow2 e \<le> x" unfolding e_def using assms(1) by (rule ilog2_bounds)
  then have "pow2 e / pow2 (e - 52) \<le> x / pow2 (e - 52)"
    by (intro divide_right_mono) simp_all
  moreover have "pow2 e / pow2 (e - 52) = pow2 52" using pow2_diff[of e "e - 52"] by simp
  moreover have "pow2 52 = of_int (2 ^ 52)" by (simp add: pow2_def)
  ultimately have "of_int (2 ^ 52) \<le> x / pow2 (e - 52)" by simp
  then have "2 ^ 52 \<le> round_half_even (x / pow2 (e - 52))" by (rule round_half_even_ge)
  then have "(of_int (2 ^ 52) :: rat) \<le> of_int (round_half_even (x / pow2 (e - 52)))"
    by (simp only: of_int_le_iff)
  then have "of_int (2 ^ 52) * pow2 (e - 52) \<le> nearest64 x"
    unfolding nearest64_unfold m by (intro mult_right_mono) simp_all
  moreover have "of_int (2 ^ 52) * pow2 (e - 52) = pow2 52 * pow2 (e - 52)"
    by (simp add: pow2_def)
  moreover have "pow2 52 * pow2 (e - 52) = pow2 e" using pow2_add[of 52 "e - 52"] by simp
  ultimately show ?thesis by (simp add: e_def)
qed

lemma round64_0 [simp]: "round64 0 = Finite 0"
  by (simp add: round64_def)

lemma round64_pos:
  "0 < x \<Longrightarrow> round64 x = (if pow2 1024 \<le> nearest64 x then PosInf else Finite (nearest64 x))"
  by (simp add: round64_def Let_def)

lemma round64_minus: "round64 (- x) = js_neg (round64 x)"
  by (cases "x = 0"; cases "0 < x") (auto simp: round64_def Let_def)

lemma round64_not_NaN [simp]: "round64 x \<noteq> NaN"
  by (simp add: round64_def Let_def)

lemma round64_ge0: "0 \<le> x \<Longrightarrow> js_ge0 (round64 x)"
  by (cases "x = 0") (auto simp: round64_pos nearest64_nonneg)

lemma round64_overflow:
  assumes "pow2 1024 \<le> x"
  shows "round64 x = PosInf"
proof -
  have xpos: "0 < x" using assms pow2_pos[of 1024] by linarith
  have e: "1024 \<le> ilog2 x" using xpos assms by (rule ilog2_ge)
  then have "pow2 1024 \<le> pow2 (ilog2 x)" by simp
  also have "\<dots> \<le> nearest64 x" using xpos e by (intro nearest64_ge_binade) simp_all
  finally show ?thesis using xpos by (simp add: round64_pos)
qed

lemma round64_exact_pos:
  assumes "0 < m" "m < 2 ^ 53" "- 1074 \<le> k" "of_int m * pow2 k < pow2 1024"
  shows "round64 (of_int m * pow2 k) = Finite (of_int m * pow2 k)"
proof -
  have "0 < (of_int m :: rat) * pow2 k" using assms(1) by simp
  then show ?thesis using assms by (simp add: round64_pos nearest64_exact del: of_int_pos)
qed

lemma round64_exact:
  assumes "\<bar>m\<bar> < 2 ^ 53" "- 1074 \<le> k" "\<bar>of_int m * pow2 k\<bar> < pow2 1024"
  shows "round64 (of_int m * pow2 k) = Finite (of_int m * pow2 k)"
proof -
  consider "m = 0" | "0 < m" | "m < 0" by linarith
  then show ?thesis
  proof cases
    case 1
    then show ?thesis by simp
  next
    case 2
    then have "of_int m * pow2 k < pow2 1024" using assms(3) by (simp add: abs_mult)
    then show ?thesis using 2 assms(1,2) by (intro round64_exact_pos) simp_all
  next
    case 3
    then have "of_int (- m) * pow2 k < pow2 1024" using assms(3) by (simp add: abs_mult)
    then have "round64 (of_int (- m) * pow2 k) = Finite (of_int (- m) * pow2 k)"
      using 3 assms(1,2) by (intro round64_exact_pos) simp_all
    then show ?thesis using round64_minus[of "of_int (- m) * pow2 k"] by simp
  qed
qed

lemma round64_of_int:
  assumes "\<bar>k\<bar> < 2 ^ 53"
  shows "round64 (of_int k) = Finite (of_int k)"
proof -
  have "(of_int \<bar>k\<bar> :: rat) < of_int (2 ^ 53)" using assms by (simp only: of_int_less_iff)
  also have "(of_int (2 ^ 53) :: rat) < pow2 1024" by (simp add: pow2_def)
  finally have "\<bar>of_int k * pow2 0\<bar> < pow2 1024" by simp
  then show ?thesis using round64_exact[of k 0] assms by simp
qed

lemma num_of_int_exact: "\<bar>k\<bar> < 2 ^ 53 \<Longrightarrow> num_of_int k = Finite (of_int k)"
  by (simp add: num_of_int_def round64_of_int)

text \<open>In the normal range the result is within the relative error \<open>2^-53\<close>.\<close>

lemma round64_relative:
  assumes "pow2 (- 1022) \<le> x" "x < pow2 1023"
  shows "\<exists>v. round64 x = Finite v \<and> x * (1 - pow2 (- 53)) \<le> v \<and> v \<le> x * (1 + pow2 (- 53))"
proof -
  have xpos: "0 < x" using assms(1) pow2_pos[of "- 1022"] by linarith
  have lo: "- 1022 \<le> ilog2 x" using xpos assms(1) by (rule ilog2_ge)
  have hi: "ilog2 x < 1023" using xpos assms(2) by (rule ilog2_less)
  have m: "max (ilog2 x) (- 1022) = ilog2 x" using lo by simp
  have "nearest64 x \<le> pow2 (ilog2 x + 1)" using nearest64_le_binade[OF xpos] by (simp add: m)
  also have "\<dots> \<le> pow2 1023" using hi by simp
  also have "\<dots> < pow2 1024" by simp
  finally have r: "round64 x = Finite (nearest64 x)" using xpos by (simp add: round64_pos)
  have "pow2 (ilog2 x - 53) = pow2 (ilog2 x) * pow2 (- 53)"
    using pow2_add[of "ilog2 x" "- 53"] by simp
  also have "\<dots> \<le> x * pow2 (- 53)"
    using ilog2_bounds(1)[OF xpos] by (intro mult_right_mono) simp_all
  finally have "\<bar>nearest64 x - x\<bar> \<le> x * pow2 (- 53)"
    using nearest64_error[of x] by (simp add: m)
  then have "x * (1 - pow2 (- 53)) \<le> nearest64 x \<and> nearest64 x \<le> x * (1 + pow2 (- 53))"
    by (simp add: algebra_simps abs_le_iff)
  then show ?thesis using r by simp
qed

section \<open>The forecast\<close>

text \<open>What \<^verbatim>\<open>forecastData\<close> returns on a history of at least 10 points whose last date is
  a date, when every forecast date is within the range of \<^verbatim>\<open>Date\<close>.\<close>

lemma forecastData_long:
  assumes "10 \<le> length hist"
  shows "forecastData h (Some hist) d =
    forecast_loop
      (forecast_step h (fst (linear_fit hist)) (snd (linear_fit hist)) (int (length hist))
         (Date_new h (hdate (last hist))))
      [1..d]"
proof -
  have "hist \<noteq> []" using assms by auto
  then have "hist ! (length hist - 1) = last hist" by (simp add: last_conv_nth)
  then show ?thesis using assms
    by (simp add: forecastData_def Let_def split_beta)
qed

lemma forecastData_returns:
  assumes "10 \<le> length hist" and "Date_new h (hdate (last hist)) = Some t"
    and "\<forall>k \<in> {1..d}. TimeClip (forecast_time h t k) \<noteq> None"
  shows "forecastData h (Some hist) d = Inr (map (forecast_record_at h hist t) [1..d])"
  unfolding forecastData_long[OF assms(1)] assms(2)
proof (rule forecast_loop_map)
  fix k assume "k \<in> set [1..d]"
  then have "TimeClip (forecast_time h t k) = Some (forecast_time h t k)"
    using assms(3) by (auto simp: TimeClip_def split: if_splits)
  then show "forecast_step h (fst (linear_fit hist)) (snd (linear_fit hist)) (int (length hist))
      (Some t) k = Inr (forecast_record_at h hist t k)"
    by (simp add: forecast_step_Some forecast_record_at_def)
qed

lemma forecastData_raises:
  assumes "10 \<le> length hist" and "Date_new h (hdate (last hist)) = Some t"
    and "k \<in> {1..d}" and "TimeClip (forecast_time h t k) = None"
  shows "forecastData h (Some hist) d = Inl RangeError"
  unfolding forecastData_long[OF assms(1)] assms(2)
proof (rule forecast_loop_Inl)
  show "k \<in> set [1..d]" using assms(3) by simp
  show "forecast_step h (fst (linear_fit hist)) (snd (linear_fit hist)) (int (length hist))
      (Some t) k = Inl RangeError"
    using assms(4) by (rule forecast_step_None)
qed (rule forecast_step_error)

lemma list_all2_lhs: "list_all2 P xs ys \<Longrightarrow> x \<in> set xs \<Longrightarrow> \<exists>y. P x y"
  by (induction rule: list_all2_induct) auto

text \<open>Conversely, a forecast that is returned and is not empty comes from such a history.\<close>

lemma forecastData_Inr:
  assumes "forecastData h hopt d = Inr recs" and "recs \<noteq> []"
  obtains hist t where "hopt = Some hist" "10 \<le> length hist"
    "Date_new h (hdate (last hist)) = Some t"
    "\<forall>k \<in> {1..d}. TimeClip (forecast_time h t k) \<noteq> None"
    "recs = map (forecast_record_at h hist t) [1..d]"
proof -
  obtain hist where hopt: "hopt = Some hist" using assms by (cases hopt) (auto simp: forecastData_def)
  have len: "10 \<le> length hist" using assms hopt by (cases "length hist < 10") (auto simp: forecastData_def)
  let ?body = "forecast_step h (fst (linear_fit hist)) (snd (linear_fit hist)) (int (length hist))
         (Date_new h (hdate (last hist)))"
  have all: "list_all2 (\<lambda>k r. ?body k = Inr r) [1..d] recs"
    using assms(1) unfolding hopt forecastData_long[OF len] forecast_loop_Inr .
  then have ne: "[1..d] \<noteq> []" using assms(2) by auto
  then have one: "1 \<in> set [1..d]" by simp
  have ok: "\<exists>r. ?body k = Inr r" if "k \<in> set [1..d]" for k
    using list_all2_lhs[OF all that] .
  obtain t where t: "Date_new h (hdate (last hist)) = Some t"
    using ok[OF one] by (cases "Date_new h (hdate (last hist))") (auto simp: forecast_step_invalid)
  have rng: "\<forall>k \<in> {1..d}. TimeClip (forecast_time h t k) \<noteq> None"
  proof
    fix k assume "k \<in> {1..d}"
    then have "\<exists>r. ?body k = Inr r" using ok by simp
    then obtain r where "?body k = Inr r" ..
    then show "TimeClip (forecast_time h t k) \<noteq> None"
      unfolding t
      using forecast_step_None[of h t k "fst (linear_fit hist)" "snd (linear_fit hist)"
          "int (length hist)"]
      by (cases "TimeClip (forecast_time h t k)") simp_all
  qed
  have "forecastData h (Some hist) d = Inr (map (forecast_record_at h hist t) [1..d])"
    using len t rng by (rule forecastData_returns)
  then have "recs = map (forecast_record_at h hist t) [1..d]" using assms(1) hopt by simp
  then show ?thesis using that hopt len t rng by blast
qed

text \<open>On a steady host the forecast instants do not decrease.\<close>

lemma forecast_time_mono:
  assumes "steady_host h"
  shows "i \<le> j \<Longrightarrow> forecast_time h t i \<le> forecast_time h t j"
proof (induction j rule: int_ge_induct)
  case base
  show ?case by simp
next
  case (step j)
  have "tza_local h (LocalTime h t + j * msPerDay + msPerDay)
      \<le> tza_local h (LocalTime h t + j * msPerDay) + msPerDay"
    using assms unfolding steady_host_def by blast
  then have "forecast_time h t j \<le> forecast_time h t (j + 1)"
    by (simp add: forecast_time_def UTC_time_def algebra_simps)
  then show ?case using step.IH by simp
qed

text \<open>A date that \<^verbatim>\<open>forecastData\<close> prints is read back as the midnight of its day.\<close>

lemma Day_bound:
  assumes "\<bar>u\<bar> \<le> 8640000000000000"
  shows "\<bar>Day u\<bar> \<le> 100000000"
proof -
  have "u div 86400000 \<le> 8640000000000000 div 86400000"
    using assms by (intro zdiv_mono1) simp_all
  moreover have "(- 8640000000000000) div 86400000 \<le> u div 86400000"
    using assms by (intro zdiv_mono1) simp_all
  ultimately show ?thesis by (simp add: Day_def msPerDay_def)
qed

lemma Date_new_printed:
  assumes "\<bar>u\<bar> \<le> 8640000000000000"
  shows "Date_new h (format_civil (civil_of_day (Day u))) = Some (Day u * msPerDay)"
proof (cases "civil_of_day (Day u)")
  case (fields y m d)
  have v: "valid_civil (y, m, d)" using valid_civil_of_day[of "Day u"] fields by simp
  have y: "\<bar>y\<bar> \<le> 999999" using year_of_day_bound[OF Day_bound[OF assms]] fields by simp
  have e: "day_of_civil (y, m, d) = Day u" using day_of_civil_of_day[of "Day u"] fields by simp
  have "\<bar>Day u * msPerDay\<bar> \<le> 8640000000000000"
    using Day_bound[OF assms] by (simp add: msPerDay_def abs_mult)
  then show ?thesis
    unfolding fields Date_new_def Date_parse_def iso_civil_format[OF v y]
    by (simp add: e TimeClip_def del: day_of_civil.simps)
qed

lemma forecast_sorted:
  assumes "steady_host h" and "forecastData h hopt d = Inr recs"
  shows "sorted_wrt (date_le h) (map fdate recs)"
proof (cases "recs = []")
  case True
  then show ?thesis by simp
next
  case False
  from assms(2) False obtain hist t where
    rng: "\<forall>k \<in> {1..d}. TimeClip (forecast_time h t k) \<noteq> None" and
    recs: "recs = map (forecast_record_at h hist t) [1..d]"
    by (rule forecastData_Inr)
  have "sorted_wrt (\<lambda>i j. date_le h (fdate (forecast_record_at h hist t i))
      (fdate (forecast_record_at h hist t j))) [1..d]"
  proof (rule sorted_wrt_mono_rel[of "[1..d]" "(<)"])
    show "sorted_wrt (<) [1..d]" by (simp add: sorted_wrt_iff_nth_less)
      next
    fix i j assume i: "i \<in> set [1..d]" and j: "j \<in> set [1..d]" and "i < j"
    then have le: "forecast_time h t i \<le> forecast_time h t j"
      using forecast_time_mono[OF assms(1), of i j t] by simp
    have bi: "\<bar>forecast_time h t i\<bar> \<le> 8640000000000000"
      and bj: "\<bar>forecast_time h t j\<bar> \<le> 8640000000000000"
      using rng i j by (auto simp: TimeClip_def split: if_splits)
    have "Day (forecast_time h t i) * msPerDay \<le> Day (forecast_time h t j) * msPerDay"
      using le by (simp add: Day_def msPerDay_def zdiv_mono1)
    then show "date_le h (fdate (forecast_record_at h hist t i))
        (fdate (forecast_record_at h hist t j))"
      by (simp add: date_le_def forecast_record_at_def Date_new_printed[OF bi]
            Date_new_printed[OF bj])
  qed
  then show ?thesis unfolding recs by (simp add: sorted_wrt_map)
qed

section \<open>Computed examples\<close>

lemma example_aligned:
  "processHistoricalData utc_host (Some cases_series) None (Some vaccine_series) =
     [\<lparr>date = ''2021-01-01'', cases = 7, recovered = 0, vaccines = 2\<rparr>,
      \<lparr>date = ''+002021-01-02'', cases = 0, recovered = 0, vaccines = 1\<rparr>,
      \<lparr>date = ''2021-01-03'', cases = 5, recovered = 0, vaccines = 0\<rparr>]"
  by code_simp

lemma utc_forecast_time: "forecast_time utc_host t k = t + k * msPerDay"
  by (simp add: forecast_time_def UTC_time_def LocalTime_def utc_host_def)

lemma steady_utc_host: "steady_host utc_host"
  by (simp add: steady_host_def utc_host_def msPerDay_def)

lemma steady_new_york_2021: "steady_host new_york_2021"
  by (simp add: steady_host_def new_york_2021_def msPerDay_def)

lemma linear_history_length: "length linear_history = 10"
  by (simp add: linear_history_def)

lemma linear_history_last: "Date_new utc_host (hdate (last linear_history)) = Some 1611964800000"
  by code_simp

lemma round64_numeral:
  "(numeral w :: int) < 2 ^ 53 \<Longrightarrow> round64 (numeral w) = Finite (numeral w)"
  using round64_of_int[of "numeral w"] by simp

lemma round64_1 [simp]: "round64 1 = Finite 1"
  using round64_of_int[of 1] by simp

lemma num_of_int_numeral:
  "(numeral w :: int) < 2 ^ 53 \<Longrightarrow> num_of_int (numeral w) = Finite (numeral w)"
  using num_of_int_exact[of "numeral w"] by simp

lemma num_of_int_0 [simp]: "num_of_int 0 = Finite 0"
  by (simp add: num_of_int_def)

lemma num_of_int_1 [simp]: "num_of_int 1 = Finite 1"
  by (simp add: num_of_int_def)

lemma linear_history_sums:
  "forEach_sums linear_history 0 (Finite 0, Finite 0, Finite 0, Finite 0)
     = (Finite 45, Finite 1450, Finite 7350, Finite 285)"
  by (simp add: linear_history_def round64_numeral num_of_int_numeral)

lemma linear_history_fit: "linear_fit linear_history = (Finite 10, Finite 100)"
  by (simp add: linear_fit_def linear_history_sums slope_def divisor_def intercept_def js_sub_def
        round64_numeral num_of_int_numeral linear_history_def)

lemma linear_forecast_cases:
  "forecastedCases (Finite 10) (Finite 100) 10 1 = Finite 200"
  "forecastedCases (Finite 10) (Finite 100) 10 2 = Finite 210"
  "forecastedCases (Finite 10) (Finite 100) 10 3 = Finite 220"
  by (simp_all add: forecastedCases_def raw_forecast_def js_sub_def round64_numeral
        num_of_int_numeral floor_eq_iff)

lemma days_2021:
  "civil_of_day 18658 = (2021, 1, 31)"
  "civil_of_day 18659 = (2021, 2, 1)"
  "civil_of_day 18660 = (2021, 2, 2)"
  "civil_of_day 18700 = (2021, 3, 14)"
  by (rule civil_of_day_eqI;
      simp add: DayFromYear_def days_before_month_def days_in_month_def leap_def)+

lemma linear_forecast_utc:
  "forecastData utc_host (Some linear_history) 3 =
     Inr [\<lparr>fdate = ''2021-01-31'', fcases = Finite 200, isForecast = True\<rparr>,
          \<lparr>fdate = ''2021-02-01'', fcases = Finite 210, isForecast = True\<rparr>,
          \<lparr>fdate = ''2021-02-02'', fcases = Finite 220, isForecast = True\<rparr>]"
proof -
  have len: "10 \<le> length linear_history" by (simp add: linear_history_length)
  have rng: "\<forall>k \<in> {1..3}. TimeClip (forecast_time utc_host 1611964800000 k) \<noteq> None"
    by (auto simp: utc_forecast_time TimeClip_def msPerDay_def)
  have u: "[1..3::int] = [1, 2, 3]" by code_simp
  have d: "Day (1611964800000 + msPerDay) = 18658" "Day (1611964800000 + 2 * msPerDay) = 18659"
    "Day (1611964800000 + 3 * msPerDay) = 18660"
    by (simp_all add: Day_def msPerDay_def)
  have f: "format_civil (2021, 1, 31) = ''2021-01-31''" "format_civil (2021, 2, 1) = ''2021-02-01''"
    "format_civil (2021, 2, 2) = ''2021-02-02''"
    by code_simp+
  note c = linear_forecast_cases
  show ?thesis
    unfolding forecastData_returns[OF len linear_history_last rng] u
    by (simp add: forecast_record_at_def utc_forecast_time d days_2021 f c
          linear_history_fit linear_history_length del: format_civil.simps)
qed

lemma forEach_sums_cong:
  "map hcases xs = map hcases ys \<Longrightarrow> forEach_sums xs i acc = forEach_sums ys i acc"
proof (induction xs arbitrary: ys i acc)
  case Nil
  then show ?case by simp
next
  case (Cons x xs)
  then obtain y ys' where ys: "ys = y # ys'" "hcases x = hcases y" "map hcases xs = map hcases ys'"
    by (cases ys) auto
  show ?case unfolding ys(1) by (cases acc) (simp add: ys(2) Cons.IH[OF ys(3)])
qed

lemma linear_fit_cong:
  assumes "map hcases xs = map hcases ys"
  shows "linear_fit xs = linear_fit ys"
proof -
  have "length xs = length ys" using assms by (metis length_map)
  then show ?thesis by (simp add: linear_fit_def forEach_sums_cong[OF assms])
qed

lemma march_history_last: "Date_new new_york_2021 (hdate (last march_history)) = Some 1615593600000"
  by code_simp

lemma new_york_forecast_times:
  "forecast_time new_york_2021 1615593600000 1 = 1615680000000"
  "forecast_time new_york_2021 1615593600000 2 = 1615762800000"
  by (simp_all add: forecast_time_def UTC_time_def LocalTime_def new_york_2021_def msPerDay_def)

text \<open>On a host whose offset from UTC never changes, the dates are the calendar days that
  follow the last date of the history.\<close>

lemma iso_civil_valid: "iso_civil s = Some c \<Longrightarrow> valid_civil c"
  by (auto simp: iso_civil_def Let_def split: if_splits option.splits)

lemma forecast_dates_fixed_offset:
  assumes "10 \<le> length hist" and "iso_civil (hdate (last hist)) = Some c"
    and "Date_new h (hdate (last hist)) = Some t"
    and "\<forall>x. tza_utc h x = off \<and> tza_local h x = off"
    and "\<forall>k \<in> {1..d}. TimeClip (forecast_time h t k) \<noteq> None"
  shows "forecastData h (Some hist) d =
    Inr (map (\<lambda>k. \<lparr>fdate = format_civil ((next_day ^^ nat k) c),
                   fcases = fcases (forecast_record_at h hist t k),
                   isForecast = True\<rparr>) [1..d])"
proof -
  have t: "t = day_of_civil c * msPerDay"
    using assms(2,3) by (auto simp: Date_new_def Date_parse_def TimeClip_def split: if_splits)
  have "format_civil (civil_of_day (Day (forecast_time h t k))) = format_civil ((next_day ^^ nat k) c)"
    if "k \<in> set [1..d]" for k
  proof -
    have "forecast_time h t k = (day_of_civil c + k) * msPerDay"
      using assms(4) by (simp add: forecast_time_def UTC_time_def LocalTime_def t algebra_simps)
    then have "Day (forecast_time h t k) = day_of_civil c + int (nat k)"
      using that by (simp add: Day_def msPerDay_def)
    then show ?thesis
      by (simp only: civil_of_day_add civil_of_day_of_civil[OF iso_civil_valid[OF assms(2)]])
  qed
  then have "map (forecast_record_at h hist t) [1..d] =
      map (\<lambda>k. \<lparr>fdate = format_civil ((next_day ^^ nat k) c),
                   fcases = fcases (forecast_record_at h hist t k),
                   isForecast = True\<rparr>) [1..d]"
    by (intro map_cong) (simp_all add: forecast_record_at_def del: format_civil.simps)
  then show ?thesis using forecastData_returns[OF assms(1,3,5)] by simp
qed

text \<open>Rounding is visible in the result. On the history of eleven points the exact line is
  \<open>y = 381/22 - (7/22) x\<close>, which is \<open>27/2\<close> at \<open>x = 12\<close> and would round to 14; in
  binary64 \<open>m\<close> and \<open>b\<close> are rounded quotients, the regression value comes out just
  below \<open>27/2\<close>, and the forecast is 13.\<close>

lemma noisy_history_sums:
  "forEach_sums noisy_history 0 (Finite 0, Finite 0, Finite 0, Finite 0)
     = (Finite 55, Finite 173, Finite 830, Finite 385)"
  by (simp add: noisy_history_def round64_numeral num_of_int_numeral)

lemma noisy_m: "round64 (- 385 / 1210) = Finite (- 5731854071198813 / 18014398509481984)"
  by code_simp

lemma noisy_t1: "round64 ((- 5731854071198813 / 18014398509481984) * 55) = Finite (- 35 / 2)"
  by code_simp

lemma noisy_b: "round64 ((381 / 2) / 11) = Finite (4874634823943633 / 281474976710656)"
  by code_simp

lemma noisy_t4: "round64 ((- 5731854071198813 / 18014398509481984) * 12)
    = Finite (- 2149445276699555 / 562949953421312)"
  by code_simp

lemma noisy_raw: "round64 (- 2149445276699555 / 562949953421312 + 4874634823943633 / 281474976710656)
    = Finite (7599824371187711 / 562949953421312)"
  by code_simp

lemma round64_neg_numeral:
  "(numeral w :: int) < 2 ^ 53 \<Longrightarrow> round64 (- numeral w) = Finite (- numeral w)"
  using round64_of_int[of "- numeral w"] by simp

lemma noisy_history_fit:
  "linear_fit noisy_history
     = (Finite (- 5731854071198813 / 18014398509481984), Finite (4874634823943633 / 281474976710656))"
proof -
  have l: "length noisy_history = 11" by (simp add: noisy_history_def)
  have a: "(- 5731854071198813 / 18014398509481984 :: rat) * 55 = - 315251973915934715 / 18014398509481984"
    by simp
  have t1: "round64 (- (315251973915934715 / 18014398509481984)) = Finite (- 35 / 2)"
    using noisy_t1 by simp
  have m: "round64 (- (7 / 22)) = Finite (- 5731854071198813 / 18014398509481984)"
    using noisy_m by simp
  have b: "round64 (381 / 22) = Finite (4874634823943633 / 281474976710656)"
    using noisy_b by simp
  have h: "round64 (381 / 2) = Finite (381 / 2)"
    using round64_exact[of 381 "- 1"] by (simp add: pow2_def)
  show ?thesis
    by (simp add: linear_fit_def noisy_history_sums l h slope_def divisor_def intercept_def
        js_sub_def round64_numeral round64_neg_numeral num_of_int_numeral m t1 b Let_def)
qed

lemma noisy_forecast:
  "forecastedCases (fst (linear_fit noisy_history)) (snd (linear_fit noisy_history)) 11 2 = Finite 13"
  and "\<lfloor>(381 / 22 - 7 / 22 * 12 :: rat) + 1 / 2\<rfloor> = 14"
proof -
  have t4: "round64 (- (17195562213596439 / 4503599627370496)) = Finite (- 2149445276699555 / 562949953421312)"
    using noisy_t4 by simp
  have raw: "round64 (7599824371187711 / 562949953421312) = Finite (7599824371187711 / 562949953421312)"
    using noisy_raw by simp
  show "forecastedCases (fst (linear_fit noisy_history)) (snd (linear_fit noisy_history)) 11 2
      = Finite 13"
    apply (simp add: noisy_history_fit forecastedCases_def raw_forecast_def js_sub_def
        round64_numeral num_of_int_numeral t4)
    apply (simp add: noisy_raw raw floor_eq_iff)
    done
  show "\<lfloor>(381 / 22 - 7 / 22 * 12 :: rat) + 1 / 2\<rfloor> = 14" by (simp add: floor_eq_iff)
qed

section \<open>The regression in binary64\<close>

text \<open>
  The sums of the loop are rounded at every step. Each of them stays within a factor
  \<open>(1 \<plusminus> 2^-53)^k\<close> of the exact sum, \<open>k\<close> growing by one per rounding, as long as the
  exact sums stay far below the overflow threshold; for an array (fewer than \<open>2^32\<close>
  elements) that factor differs from 1 by at most \<open>2^-18\<close>. The exact divisor
  \<open>n \<Sigma>i\<^sup>2 - (\<Sigma>i)\<^sup>2\<close> is at least a third of \<open>(\<Sigma>i)\<^sup>2\<close>, so the computed one is positive
  from two points on; and with counts up to \<open>2^53\<close> every intermediate value of the fit
  is finite.
\<close>

lemma unit_roundoff_eq: "unit_roundoff = 1 / 2 ^ 53"
  by (simp add: unit_roundoff_def pow2_def)

lemma unit_roundoff_bounds: "0 < unit_roundoff" "unit_roundoff < 1"
  by (simp_all add: unit_roundoff_eq)

lemma one_minus_u_pow_ge: "1 - of_nat k * unit_roundoff \<le> (1 - unit_roundoff) ^ k"
proof (induction k)
  case 0
  show ?case by simp
next
  case (Suc k)
  let ?u = unit_roundoff
  have u: "0 < ?u" "?u < 1" by (rule unit_roundoff_bounds)+
  have "0 \<le> of_nat k * ?u * ?u" using u by simp
  then have "1 - of_nat (Suc k) * ?u \<le> (1 - of_nat k * ?u) * (1 - ?u)"
    by (simp add: algebra_simps)
  also have "\<dots> \<le> (1 - ?u) ^ k * (1 - ?u)" using Suc u by (intro mult_right_mono) simp_all
  finally show ?case by (simp add: mult.commute)
qed

lemma one_plus_u_pow_aux: "(1 + unit_roundoff) ^ k * (1 - of_nat k * unit_roundoff) \<le> 1"
proof (induction k)
  case 0
  show ?case by simp
next
  case (Suc k)
  let ?u = unit_roundoff
  have u: "0 < ?u" by (rule unit_roundoff_bounds)
  have p: "0 \<le> (1 + ?u) ^ k" using u by simp
  have "0 \<le> (1 + ?u) ^ k * (of_nat (Suc k) * ?u * ?u)"
    using u p by (intro mult_nonneg_nonneg) simp_all
  moreover have "(1 + ?u) ^ Suc k * (1 - of_nat (Suc k) * ?u)
      = (1 + ?u) ^ k * (1 - of_nat k * ?u) - (1 + ?u) ^ k * (of_nat (Suc k) * ?u * ?u)"
    by (simp add: algebra_simps)
  ultimately have "(1 + ?u) ^ Suc k * (1 - of_nat (Suc k) * ?u) \<le> (1 + ?u) ^ k * (1 - of_nat k * ?u)"
    by linarith
  then show ?case using Suc by linarith
qed

lemma one_plus_u_pow_le:
  assumes "of_nat k * unit_roundoff \<le> 1 / 2"
  shows "(1 + unit_roundoff) ^ k \<le> 1 + 2 * (of_nat k * unit_roundoff)"
proof -
  define t where "t = of_nat k * unit_roundoff"
  define p where "p = (1 + unit_roundoff) ^ k"
  have t: "0 \<le> t" "t \<le> 1 / 2" using assms unit_roundoff_bounds by (simp_all add: t_def)
  have p: "p * (1 - t) \<le> 1" unfolding p_def t_def by (rule one_plus_u_pow_aux)
  have "0 \<le> t * (1 - 2 * t)" using t by (intro mult_nonneg_nonneg) simp_all
  then have "1 \<le> (1 + 2 * t) * (1 - t)" by (simp add: algebra_simps)
  with p have "p * (1 - t) \<le> (1 + 2 * t) * (1 - t)" by linarith
  moreover have "0 < 1 - t" using t by simp
  ultimately have "p \<le> 1 + 2 * t" by (simp only: mult_le_cancel_right_pos)
  then show ?thesis by (simp add: p_def t_def)
qed

lemma pow_bounds:
  assumes "k \<le> 2 ^ 34"
  shows "1 - 1 / 2 ^ 18 \<le> (1 - unit_roundoff) ^ k" and "(1 + unit_roundoff) ^ k \<le> 1 + 1 / 2 ^ 18"
proof -
  have "(of_nat k :: rat) \<le> of_nat (2 ^ 34)" using assms by (simp only: of_nat_le_iff)
  then have k: "(of_nat k :: rat) \<le> 2 ^ 34" by simp
  have "of_nat k * unit_roundoff \<le> 2 ^ 34 * unit_roundoff"
    using k unit_roundoff_bounds by (intro mult_right_mono) simp_all
  also have "\<dots> = 1 / 2 ^ 19" by (simp add: unit_roundoff_eq)
  finally have t: "of_nat k * unit_roundoff \<le> 1 / 2 ^ 19" .
  show "1 - 1 / 2 ^ 18 \<le> (1 - unit_roundoff) ^ k"
    using one_minus_u_pow_ge[of k] t by simp
  have "of_nat k * unit_roundoff \<le> 1 / 2" using t by simp
  then have "(1 + unit_roundoff) ^ k \<le> 1 + 2 * (of_nat k * unit_roundoff)"
    by (rule one_plus_u_pow_le)
  then show "(1 + unit_roundoff) ^ k \<le> 1 + 1 / 2 ^ 18" using t by simp
qed

lemma near_refl: "near 0 x x"
  by (simp add: near_def)

lemma near_nonneg: "near k x v \<Longrightarrow> 0 \<le> x \<Longrightarrow> 0 \<le> v"
proof -
  assume n: "near k x v" and x: "0 \<le> x"
  have "0 \<le> (1 - unit_roundoff) ^ k" using unit_roundoff_bounds by simp
  then have "0 \<le> x * (1 - unit_roundoff) ^ k" using x by simp
  then show ?thesis using n by (simp add: near_def)
qed

lemma near_mono:
  assumes "near k x v" "0 \<le> x" "k \<le> l"
  shows "near l x v"
proof -
  let ?u = unit_roundoff
  have u: "0 < ?u" "?u < 1" by (rule unit_roundoff_bounds)+
  have "(1 - ?u) ^ l \<le> (1 - ?u) ^ k" using u assms(3) by (intro power_decreasing) simp_all
  then have lo: "x * (1 - ?u) ^ l \<le> x * (1 - ?u) ^ k" using assms(2) by (rule mult_left_mono)
  have "(1 + ?u) ^ k \<le> (1 + ?u) ^ l" using u assms(3) by (intro power_increasing) simp_all
  then have hi: "x * (1 + ?u) ^ k \<le> x * (1 + ?u) ^ l" using assms(2) by (rule mult_left_mono)
  show ?thesis using assms(1) lo hi by (simp add: near_def)
qed

lemma near_add: "near k x a \<Longrightarrow> near k y b \<Longrightarrow> near k (x + y) (a + b)"
  by (simp add: near_def algebra_simps)

lemma near_mult:
  assumes "near k x a" "near l y b" "0 \<le> x" "0 \<le> y"
  shows "near (k + l) (x * y) (a * b)"
proof -
  let ?u = unit_roundoff
  have u: "0 < ?u" "?u < 1" by (rule unit_roundoff_bounds)+
  have a: "0 \<le> a" and b: "0 \<le> b" using assms near_nonneg by blast+
  have lk: "0 \<le> x * (1 - ?u) ^ k" and ll: "0 \<le> y * (1 - ?u) ^ l" using assms(3,4) u by simp_all
  have "(x * (1 - ?u) ^ k) * (y * (1 - ?u) ^ l) \<le> a * b"
    using assms(1,2) lk ll a b by (intro mult_mono) (simp_all add: near_def)
  then have lo: "x * y * (1 - ?u) ^ (k + l) \<le> a * b" by (simp add: power_add mult_ac)
  have "a * b \<le> (x * (1 + ?u) ^ k) * (y * (1 + ?u) ^ l)"
    using assms a b u by (intro mult_mono) (simp_all add: near_def)
  then have hi: "a * b \<le> x * y * (1 + ?u) ^ (k + l)" by (simp add: power_add mult_ac)
  show ?thesis using lo hi by (simp add: near_def)
qed

lemma near_bounds:
  assumes "near k x v" "0 \<le> x" "k \<le> 2 ^ 34"
  shows "x * (1 - 1 / 2 ^ 18) \<le> v" and "v \<le> x * (1 + 1 / 2 ^ 18)"
proof -
  have "x * (1 - 1 / 2 ^ 18) \<le> x * (1 - unit_roundoff) ^ k"
    using assms(2) pow_bounds(1)[OF assms(3)] by (rule mult_left_mono[rotated])
  then show "x * (1 - 1 / 2 ^ 18) \<le> v" using assms(1) by (simp add: near_def)
  have "x * (1 + unit_roundoff) ^ k \<le> x * (1 + 1 / 2 ^ 18)"
    using assms(2) pow_bounds(2)[OF assms(3)] by (rule mult_left_mono[rotated])
  then show "v \<le> x * (1 + 1 / 2 ^ 18)" using assms(1) by (simp add: near_def)
qed

lemma near_zero: "near k 0 v \<Longrightarrow> v = 0"
  by (simp add: near_def)

lemma near_round:
  assumes "near k x v" "x = 0 \<or> 1 \<le> x" "x \<le> pow2 1000" "k \<le> 2 ^ 34"
  shows "near_num (Suc k) x (round64 v)"
proof (cases "x = 0")
  case True
  then have "v = 0" using assms(1) near_zero by simp
  then show ?thesis using True by (simp add: near_num_def near_def)
next
  case False
  then have x: "1 \<le> x" using assms(2) by simp
  then have x0: "0 \<le> x" by simp
  note b = near_bounds[OF assms(1) x0 assms(4)]
  have "1 / 2 \<le> x * (1 - 1 / 2 ^ 18)" using x by simp
  then have v: "1 / 2 \<le> v" using b(1) by linarith
  have "pow2 (- 1022) \<le> pow2 (- 1)" by simp
  also have "pow2 (- 1) = 1 / 2" by (simp add: pow2_def)
  finally have lo: "pow2 (- 1022) \<le> v" using v by linarith
  have "v \<le> 2 * x" using b(2) x0 by simp
  also have "\<dots> \<le> 2 * pow2 1000" using assms(3) by simp
  also have "\<dots> = pow2 1001" using pow2_Suc[of 1000] by simp
  also have "\<dots> < pow2 1023" by simp
  finally have hi: "v < pow2 1023" .
  obtain w where w: "round64 v = Finite w" "v * (1 - pow2 (- 53)) \<le> w" "w \<le> v * (1 + pow2 (- 53))"
    using round64_relative[OF lo hi] by blast
  let ?u = unit_roundoff
  have u: "0 < ?u" "?u < 1" by (rule unit_roundoff_bounds)+
  have "x * (1 - ?u) ^ k * (1 - ?u) \<le> v * (1 - ?u)"
    using assms(1) u by (intro mult_right_mono) (simp_all add: near_def)
  then have l: "x * (1 - ?u) ^ Suc k \<le> w" using w(2) by (simp add: unit_roundoff_def mult_ac)
  have "v * (1 + ?u) \<le> x * (1 + ?u) ^ k * (1 + ?u)"
    using assms(1) u by (intro mult_right_mono) (simp_all add: near_def)
  then have h: "w \<le> x * (1 + ?u) ^ Suc k" using w(3) by (simp add: unit_roundoff_def mult_ac)
  show ?thesis using w(1) l h by (simp add: near_num_def near_def)
qed

lemma index_sum_0 [simp]: "index_sum 0 = 0"
  by (simp add: index_sum_def)

lemma index_square_sum_0 [simp]: "index_square_sum 0 = 0"
  by (simp add: index_square_sum_def)

lemma index_sum_Suc: "index_sum (Suc j) = index_sum j + of_nat j"
  by (simp add: index_sum_def field_simps)

lemma index_square_sum_Suc:
  "index_square_sum (Suc j) = index_square_sum j + of_nat j * of_nat j"
  by (simp add: index_square_sum_def field_simps)

lemma of_nat_0_or_ge_1: "(of_nat m :: rat) = 0 \<or> 1 \<le> (of_nat m :: rat)"
  by (cases m) simp_all

lemma index_sum_nat: "\<exists>m::nat. index_sum j = of_nat m"
proof (induction j)
  case 0
  show ?case by simp
next
  case (Suc j)
  then obtain m :: nat where "index_sum j = of_nat m" ..
  then have "index_sum (Suc j) = of_nat (m + j)" by (simp add: index_sum_Suc)
  then show ?case ..
qed

lemma index_square_sum_nat: "\<exists>m::nat. index_square_sum j = of_nat m"
proof (induction j)
  case 0
  show ?case by simp
next
  case (Suc j)
  then obtain m :: nat where "index_square_sum j = of_nat m" ..
  then have "index_square_sum (Suc j) = of_nat (m + j * j)" by (simp add: index_square_sum_Suc)
  then show ?case ..
qed

lemma index_sum_le: "index_sum j \<le> of_nat j * of_nat j"
proof (induction j)
  case 0
  show ?case by simp
next
  case (Suc j)
  have "index_sum (Suc j) \<le> of_nat j * of_nat j + of_nat j" using Suc by (simp add: index_sum_Suc)
  also have "\<dots> \<le> of_nat (Suc j) * of_nat (Suc j)" by (simp add: algebra_simps)
  finally show ?case .
qed

lemma index_square_sum_le: "index_square_sum j \<le> of_nat j * of_nat j * of_nat j"
proof (induction j)
  case 0
  show ?case by simp
next
  case (Suc j)
  have "index_square_sum (Suc j) \<le> of_nat j * of_nat j * of_nat j + of_nat j * of_nat j"
    using Suc by (simp add: index_square_sum_Suc)
  also have "\<dots> \<le> of_nat (Suc j) * of_nat (Suc j) * of_nat (Suc j)"
    by (simp add: algebra_simps)
  finally show ?case .
qed

lemma of_nat_le_2_32: "j \<le> 2 ^ 32 \<Longrightarrow> (of_nat j :: rat) \<le> 2 ^ 32"
proof -
  assume "j \<le> 2 ^ 32"
  then have "(of_nat j :: rat) \<le> of_nat (2 ^ 32)" by (simp only: of_nat_le_iff)
  then show ?thesis by simp
qed

lemma index_sum_bound:
  assumes "j \<le> 2 ^ 32"
  shows "index_sum j \<le> 2 ^ 64" and "index_square_sum j \<le> 2 ^ 96"
    and "(of_nat j :: rat) * of_nat j \<le> 2 ^ 64"
proof -
  have j: "(of_nat j :: rat) \<le> 2 ^ 32" "0 \<le> (of_nat j :: rat)"
    using assms by (simp_all add: of_nat_le_2_32)
  have "(of_nat j :: rat) * of_nat j \<le> 2 ^ 32 * 2 ^ 32" using j by (intro mult_mono) simp_all
  then show jj: "(of_nat j :: rat) * of_nat j \<le> 2 ^ 64" by simp
  then show "index_sum j \<le> 2 ^ 64" using index_sum_le[of j] by linarith
  have "(of_nat j :: rat) * of_nat j * of_nat j \<le> 2 ^ 64 * 2 ^ 32"
    using j jj by (intro mult_mono) simp_all
  then show "index_square_sum j \<le> 2 ^ 96" using index_square_sum_le[of j] by simp
qed

lemma small_le_pow2_1000: "x \<le> 2 ^ 200 \<Longrightarrow> x \<le> pow2 1000"
proof -
  assume "x \<le> 2 ^ 200"
  also have "(2 :: rat) ^ 200 = pow2 200" by (simp add: pow2_def)
  also have "\<dots> \<le> pow2 1000" by simp
  finally show ?thesis .
qed

lemma near_numE:
  assumes "near_num k x a"
  obtains v where "a = Finite v" "near k x v"
  using assms by (cases a) (simp_all add: near_num_def)

lemma near_num_Finite [simp]: "near_num k x (Finite v) = near k x v"
  by (simp add: near_num_def)

lemma num_of_nat_exact: "j \<le> 2 ^ 32 \<Longrightarrow> num_of_int (int j) = Finite (of_nat j)"
proof -
  assume "j \<le> 2 ^ 32"
  then have "int j \<le> int (2 ^ 32)" by (simp only: of_nat_le_iff)
  then have "\<bar>int j\<bar> < 2 ^ 53" by simp
  then show ?thesis using num_of_int_exact[of "int j"] by simp
qed

lemma forEach_sums_index:
  assumes "forEach_sums ds (int j) (sx, sy, sxy, sx2) = (rx, ry, rxy, rx2)"
    and "near_num j (index_sum j) sx"
    and "near_num (Suc j) (index_square_sum j) sx2"
    and "j + length ds \<le> 2 ^ 32"
  shows "near_num (j + length ds) (index_sum (j + length ds)) rx
    \<and> near_num (Suc (j + length ds)) (index_square_sum (j + length ds)) rx2"
  using assms
proof (induction ds arbitrary: j sx sy sxy sx2)
  case Nil
  then show ?case by simp
next
  case (Cons d ds)
  have j: "j \<le> 2 ^ 32" "Suc j \<le> 2 ^ 32" using Cons.prems(4) by simp_all
  have k: "j \<le> 2 ^ 34" "Suc j \<le> 2 ^ 34" "(0::nat) \<le> 2 ^ 34" using j by simp_all
  obtain a where a: "sx = Finite a" "near j (index_sum j) a"
    using Cons.prems(2) by (rule near_numE)
  obtain c where c: "sx2 = Finite c" "near (Suc j) (index_square_sum j) c"
    using Cons.prems(3) by (rule near_numE)
  have nj: "num_of_int (int j) = Finite (of_nat j)" using j(1) by (rule num_of_nat_exact)
  have j0: "0 \<le> (of_nat j :: rat)" by simp
  have jj0: "0 \<le> (of_nat j :: rat) * of_nat j" by simp
  note bd = index_sum_bound[OF j(2)] index_sum_bound(3)[OF j(1)]
  \<comment> \<open>sumX\<close>
  have "near j (of_nat j) (of_nat j)" using near_refl j0 by (rule near_mono) simp
  with a(2) have "near j (index_sum (Suc j)) (a + of_nat j)"
    unfolding index_sum_Suc by (rule near_add)
  moreover have "index_sum (Suc j) = 0 \<or> 1 \<le> index_sum (Suc j)"
    using index_sum_nat[of "Suc j"] of_nat_0_or_ge_1 by auto
  moreover have "index_sum (Suc j) \<le> pow2 1000" using bd(1) by (intro small_le_pow2_1000) simp
  ultimately have "near_num (Suc j) (index_sum (Suc j)) (round64 (a + of_nat j))"
    using k(1) by (rule near_round)
  then have sx': "near_num (Suc j) (index_sum (Suc j)) (js_add sx (num_of_int (int j)))"
    by (simp add: a(1) nj)
  \<comment> \<open>sumX2\<close>
  have "(of_nat j :: rat) * of_nat j = of_nat (j * j)" by simp
  then have z: "(of_nat j :: rat) * of_nat j = 0 \<or> 1 \<le> (of_nat j :: rat) * of_nat j"
    using of_nat_0_or_ge_1[of "j * j"] by simp
  have "(of_nat j :: rat) * of_nat j \<le> pow2 1000" using bd(4) by (intro small_le_pow2_1000) simp
  with near_refl z have "near_num (Suc 0) (of_nat j * of_nat j) (round64 (of_nat j * of_nat j))"
    using k(3) by (rule near_round)
  then obtain t where t: "round64 (of_nat j * of_nat j) = Finite t" "near (Suc 0) (of_nat j * of_nat j) t"
    by (rule near_numE)
  have "near (Suc j) (of_nat j * of_nat j) t" using t(2) jj0 by (rule near_mono) simp
  with c(2) have "near (Suc j) (index_square_sum (Suc j)) (c + t)"
    unfolding index_square_sum_Suc by (rule near_add)
  moreover have "index_square_sum (Suc j) = 0 \<or> 1 \<le> index_square_sum (Suc j)"
    using index_square_sum_nat[of "Suc j"] of_nat_0_or_ge_1 by auto
  moreover have "index_square_sum (Suc j) \<le> pow2 1000"
    using bd(2) by (intro small_le_pow2_1000) simp
  ultimately have "near_num (Suc (Suc j)) (index_square_sum (Suc j)) (round64 (c + t))"
    using k(2) by (rule near_round)
  then have sx2': "near_num (Suc (Suc j)) (index_square_sum (Suc j))
      (js_add sx2 (js_mul (num_of_int (int j)) (num_of_int (int j))))"
    by (simp add: c(1) nj t(1))
  have step: "forEach_sums ds (int (Suc j))
      (js_add sx (num_of_int (int j)), js_add sy (num_of_int (hcases d)),
       js_add sxy (js_mul (num_of_int (int j)) (num_of_int (hcases d))),
       js_add sx2 (js_mul (num_of_int (int j)) (num_of_int (int j)))) = (rx, ry, rxy, rx2)"
    using Cons.prems(1) by (simp add: add.commute)
  have len: "Suc j + length ds \<le> 2 ^ 32" using Cons.prems(4) by simp
  show ?case using Cons.IH[OF step sx' sx2' len] by simp
qed

lemma index_sums_ratio:
  "3 * (of_nat n * index_square_sum n) - 4 * (index_sum n * index_sum n)
     = of_nat n * of_nat n * (of_nat n - 1) / 2"
  by (simp add: index_sum_def index_square_sum_def field_simps)

lemma index_sum_ge:
  assumes "m \<le> n" "1 \<le> m"
  shows "of_nat m * (of_nat m - 1) / 2 \<le> index_sum n"
proof -
  have n: "(of_nat m :: rat) \<le> of_nat n" using assms(1) by (simp only: of_nat_le_iff)
  have m: "(1 :: rat) \<le> of_nat m" using assms(2) by simp
  have "(of_nat m :: rat) * (of_nat m - 1) \<le> of_nat n * (of_nat n - 1)"
    using n m by (intro mult_mono) simp_all
  then show ?thesis by (simp add: index_sum_def)
qed

lemma divisor_lower:
  assumes "2 \<le> n" "n < 2 ^ 32"
    and "near_num n (index_sum n) sumX"
    and "near_num (Suc n) (index_square_sum n) sumX2"
  shows "\<exists>d. divisor (num_of_int (int n)) sumX sumX2 = Finite d
           \<and> index_sum n * index_sum n / 8 \<le> d"
proof -
  have n32: "n \<le> 2 ^ 32" using assms(2) by simp
  have k: "Suc (0 + Suc n) \<le> 2 ^ 34" "Suc (n + n) \<le> 2 ^ 34" "0 + Suc n \<le> 2 ^ 34" "n + n \<le> 2 ^ 34"
    using assms(2) by simp_all
  obtain a where a: "sumX = Finite a" "near n (index_sum n) a"
    using assms(3) by (rule near_numE)
  obtain c where c: "sumX2 = Finite c" "near (Suc n) (index_square_sum n) c"
    using assms(4) by (rule near_numE)
  have nn: "num_of_int (int n) = Finite (of_nat n)" using n32 by (rule num_of_nat_exact)
  obtain ma :: nat where ma: "index_sum n = of_nat ma" using index_sum_nat ..
  obtain mc :: nat where mc: "index_square_sum n = of_nat mc" using index_square_sum_nat ..
  define S where "S = index_sum n * index_sum n"
  define T where "T = of_nat n * index_square_sum n"
  have A0: "0 \<le> index_sum n" and B0: "0 \<le> index_square_sum n" by (simp_all add: ma mc)
  note bd = index_sum_bound[OF n32] of_nat_le_2_32[OF n32]
  have S0: "0 \<le> S" by (simp add: S_def)
  have T0: "0 \<le> T" using B0 by (simp add: T_def)
  have "S = of_nat (ma * ma)" by (simp add: S_def ma)
  then have Sz: "S = 0 \<or> 1 \<le> S" using of_nat_0_or_ge_1[of "ma * ma"] by simp
  have "T = of_nat (n * mc)" by (simp add: T_def mc)
  then have Tz: "T = 0 \<or> 1 \<le> T" using of_nat_0_or_ge_1[of "n * mc"] by simp
  have "S \<le> 2 ^ 64 * 2 ^ 64" unfolding S_def using bd(1) A0 by (intro mult_mono) simp_all
  then have Sb: "S \<le> 2 ^ 128" by simp
  have "T \<le> 2 ^ 32 * 2 ^ 96" unfolding T_def using bd(2,4) B0 by (intro mult_mono) simp_all
  then have Tb: "T \<le> 2 ^ 128" by simp
  \<comment> \<open>the two products\<close>
  have "near (0 + Suc n) T (of_nat n * c)"
    unfolding T_def using near_refl c(2) _ B0 by (rule near_mult) simp
  moreover have "T \<le> pow2 1000" using Tb by (intro small_le_pow2_1000) simp
  ultimately have "near_num (Suc (0 + Suc n)) T (round64 (of_nat n * c))"
    using Tz k(3) by (intro near_round)
  then obtain p where p: "round64 (of_nat n * c) = Finite p" "near (Suc (0 + Suc n)) T p"
    by (rule near_numE)
  have "near (n + n) S (a * a)" unfolding S_def using a(2) a(2) A0 A0 by (rule near_mult)
  moreover have "S \<le> pow2 1000" using Sb by (intro small_le_pow2_1000) simp
  ultimately have "near_num (Suc (n + n)) S (round64 (a * a))"
    using Sz k(4) by (intro near_round)
  then obtain q where q: "round64 (a * a) = Finite q" "near (Suc (n + n)) S q"
    by (rule near_numE)
  note pb = near_bounds[OF p(2) T0 k(1)]
  note qb = near_bounds[OF q(2) S0 k(2)]
  \<comment> \<open>their difference\<close>
  have "0 \<le> (of_nat n :: rat) * of_nat n * (of_nat n - 1) / 2" using assms(1) by simp
  then have TS: "4 * S \<le> 3 * T" using index_sums_ratio[of n] by (simp add: S_def T_def)
  have "1 \<le> index_sum n" using index_sum_ge[of 2 n] assms(1) by simp
  then have "1 * 1 \<le> index_sum n * index_sum n" by (intro mult_mono) simp_all
  then have S1: "1 \<le> S" by (simp add: S_def)
  have diff: "S / 4 \<le> p - q" using pb(1) qb(2) TS S0 by simp
  have "pow2 (- 1022) \<le> pow2 (- 2)" by simp
  also have "pow2 (- 2) = 1 / 4" by (simp add: pow2_def)
  finally have lo: "pow2 (- 1022) \<le> p - q" using diff S1 by linarith
  have "p - q \<le> 2 * T" using pb(2) near_nonneg[OF q(2) S0] T0 by simp
  also have "\<dots> \<le> 2 ^ 129" using Tb by simp
  also have "\<dots> = pow2 129" by (simp add: pow2_def)
  also have "\<dots> < pow2 1023" by simp
  finally have hi: "p - q < pow2 1023" .
  obtain d where d: "round64 (p - q) = Finite d" "(p - q) * (1 - pow2 (- 53)) \<le> d"
    using round64_relative[OF lo hi] by blast
  have "(p - q) / 2 \<le> (p - q) * (1 - pow2 (- 53))"
    using diff S0 by (simp add: pow2_def)
  then have "(p - q) / 2 \<le> d" using d(2) by (rule order_trans)
  then have "S / 8 \<le> d" using diff by (simp add: field_simps)
  moreover have "divisor (num_of_int (int n)) sumX sumX2 = Finite d"
    by (simp add: divisor_def js_sub_def a(1) c(1) nn p(1) q(1) d(1))
  ultimately show ?thesis by (simp add: S_def)
qed

lemma forEach_sums_index_0:
  assumes "forEach_sums hist 0 (Finite 0, Finite 0, Finite 0, Finite 0) = (sumX, sumY, sumXY, sumX2)"
    and "length hist \<le> 2 ^ 32"
  shows "near_num (length hist) (index_sum (length hist)) sumX"
    and "near_num (Suc (length hist)) (index_square_sum (length hist)) sumX2"
proof -
  have s: "forEach_sums hist (int 0) (Finite 0, Finite 0, Finite 0, Finite 0)
      = (sumX, sumY, sumXY, sumX2)" using assms(1) by simp
  have "near_num (0 + length hist) (index_sum (0 + length hist)) sumX
    \<and> near_num (Suc (0 + length hist)) (index_square_sum (0 + length hist)) sumX2"
    using s by (rule forEach_sums_index) (use assms(2) in \<open>simp_all add: near_def\<close>)
  then show "near_num (length hist) (index_sum (length hist)) sumX"
    and "near_num (Suc (length hist)) (index_square_sum (length hist)) sumX2" by simp_all
qed

lemma divisor_short:
  assumes "length hist \<le> 1"
    and "forEach_sums hist 0 (Finite 0, Finite 0, Finite 0, Finite 0) = (sumX, sumY, sumXY, sumX2)"
  shows "divisor (num_of_int (int (length hist))) sumX sumX2 = Finite 0"
proof (cases hist)
  case Nil
  then show ?thesis using assms(2) by (auto simp: divisor_def js_sub_def)
next
  case (Cons d ds)
  then have "ds = []" using assms(1) by simp
  then show ?thesis using Cons assms(2) by (auto simp: divisor_def js_sub_def)
qed

lemma bounded_Finite [simp]: "bounded e (Finite v) \<longleftrightarrow> \<bar>v\<bar> \<le> pow2 e"
  by (simp add: bounded_def)

lemma boundedE:
  assumes "bounded e a"
  obtains v where "a = Finite v" "\<bar>v\<bar> \<le> pow2 e"
  using assms by (cases a) (simp_all add: bounded_def)

lemma bounded_mono: "bounded e a \<Longrightarrow> e \<le> f \<Longrightarrow> bounded f a"
proof -
  assume a: "bounded e a" and le: "e \<le> f"
  obtain v where v: "a = Finite v" "\<bar>v\<bar> \<le> pow2 e" using a by (rule boundedE)
  have "pow2 e \<le> pow2 f" using le by simp
  with v(2) have "\<bar>v\<bar> \<le> pow2 f" by (rule order_trans)
  then show ?thesis by (simp add: v(1))
qed

lemma nearest64_le_pow2:
  assumes "0 < x" "x \<le> pow2 e" "0 \<le> e"
  shows "nearest64 x \<le> pow2 e"
proof (cases "x = pow2 e")
  case True
  have "nearest64 (of_int 1 * pow2 e) = of_int 1 * pow2 e"
    using assms(3) by (intro nearest64_exact) simp_all
  then show ?thesis using True by simp
next
  case False
  then have "x < pow2 e" using assms(2) by simp
  then have "ilog2 x < e" using assms(1) by (intro ilog2_less)
  then have "max (ilog2 x) (- 1022) + 1 \<le> e" using assms(3) by simp
  then have "pow2 (max (ilog2 x) (- 1022) + 1) \<le> pow2 e" by simp
  then show ?thesis using nearest64_le_binade[OF assms(1)] by linarith
qed

lemma bounded_round_pos:
  assumes "0 < x" "x \<le> pow2 e" "0 \<le> e" "e \<le> 1023"
  shows "bounded e (round64 x)"
proof -
  have n: "nearest64 x \<le> pow2 e" using assms(1,2,3) by (rule nearest64_le_pow2)
  have "pow2 e < pow2 1024" using assms(4) by simp
  then have f: "\<not> pow2 1024 \<le> nearest64 x" using n by linarith
  have "0 \<le> nearest64 x" using assms(1) by (intro nearest64_nonneg) simp
  then show ?thesis using n f assms(1) by (simp add: round64_pos)
qed

lemma bounded_neg: "bounded e a \<Longrightarrow> bounded e (js_neg a)"
  by (cases a) (simp_all add: bounded_def)

lemma bounded_round:
  assumes "\<bar>x\<bar> \<le> pow2 e" "0 \<le> e" "e \<le> 1023"
  shows "bounded e (round64 x)"
proof -
  consider "x = 0" | "0 < x" | "x < 0" by linarith
  then show ?thesis
  proof cases
    case 1
    then show ?thesis by simp
  next
    case 2
    then show ?thesis using assms by (intro bounded_round_pos) simp_all
  next
    case 3
    then have "bounded e (round64 (- x))" using assms by (intro bounded_round_pos) simp_all
    then have "bounded e (js_neg (round64 (- x)))" by (rule bounded_neg)
    then show ?thesis using round64_minus[of "- x"] by simp
  qed
qed

lemma bounded_add:
  assumes "bounded e a" "bounded e b" "0 \<le> e" "e < 1023"
  shows "bounded (e + 1) (js_add a b)"
proof -
  obtain x where x: "a = Finite x" "\<bar>x\<bar> \<le> pow2 e" using assms(1) by (rule boundedE)
  obtain y where y: "b = Finite y" "\<bar>y\<bar> \<le> pow2 e" using assms(2) by (rule boundedE)
  have "\<bar>x + y\<bar> \<le> 2 * pow2 e" using x(2) y(2) by linarith
  then have "\<bar>x + y\<bar> \<le> pow2 (e + 1)" by (simp add: pow2_Suc)
  then have "bounded (e + 1) (round64 (x + y))" using assms(3,4) by (intro bounded_round) simp_all
  then show ?thesis by (simp add: x(1) y(1))
qed

lemma bounded_sub:
  assumes "bounded e a" "bounded e b" "0 \<le> e" "e < 1023"
  shows "bounded (e + 1) (js_sub a b)"
  unfolding js_sub_def using assms(1) bounded_neg[OF assms(2)] assms(3,4) by (rule bounded_add)

lemma bounded_mul:
  assumes "bounded e a" "bounded f b" "0 \<le> e + f" "e + f \<le> 1023"
  shows "bounded (e + f) (js_mul a b)"
proof -
  obtain x where x: "a = Finite x" "\<bar>x\<bar> \<le> pow2 e" using assms(1) by (rule boundedE)
  obtain y where y: "b = Finite y" "\<bar>y\<bar> \<le> pow2 f" using assms(2) by (rule boundedE)
  have "\<bar>x\<bar> * \<bar>y\<bar> \<le> pow2 e * pow2 f" using x(2) y(2) by (intro mult_mono) simp_all
  then have "\<bar>x * y\<bar> \<le> pow2 (e + f)" by (simp add: abs_mult pow2_add)
  then have "bounded (e + f) (round64 (x * y))" using assms(3,4) by (rule bounded_round)
  then show ?thesis by (simp add: x(1) y(1))
qed

lemma bounded_div:
  assumes "bounded e a" "1 \<le> d" "0 \<le> e" "e \<le> 1023"
  shows "bounded e (js_div a (Finite d))"
proof -
  obtain x where x: "a = Finite x" "\<bar>x\<bar> \<le> pow2 e" using assms(1) by (rule boundedE)
  have "\<bar>x\<bar> / d \<le> \<bar>x\<bar> / 1" using assms(2) by (intro divide_left_mono) simp_all
  then have "\<bar>x / d\<bar> \<le> pow2 e" using x(2) assms(2) by simp
  then have "bounded e (round64 (x / d))" using assms(3,4) by (rule bounded_round)
  then show ?thesis using assms(2) by (simp add: x(1))
qed

lemma bounded_num_of_int:
  assumes "\<bar>k\<bar> \<le> 2 ^ nat e" "0 \<le> e" "e \<le> 1023"
  shows "bounded e (num_of_int k)"
proof -
  have "(of_int \<bar>k\<bar> :: rat) \<le> of_int (2 ^ nat e)" using assms(1) by (simp only: of_int_le_iff)
  then have "\<bar>of_int k :: rat\<bar> \<le> pow2 e" using assms(2) by (simp add: pow2_def)
  then show ?thesis unfolding num_of_int_def using assms(2,3) by (rule bounded_round)
qed

lemma near_bounded:
  assumes "near_num k x a" "0 \<le> x" "k \<le> 2 ^ 34" "2 * x \<le> pow2 e"
  shows "bounded e a"
proof -
  obtain v where v: "a = Finite v" "near k x v" using assms(1) by (rule near_numE)
  have "0 \<le> v" using v(2) assms(2) by (rule near_nonneg)
  moreover have "v \<le> 2 * x" using near_bounds(2)[OF v(2) assms(2,3)] assms(2) by simp
  ultimately show ?thesis using v(1) assms(4) by simp
qed

lemma weighted_sum_nonneg: "\<forall>d \<in> set ds. 0 \<le> hcases d \<Longrightarrow> 0 \<le> weighted_sum j ds"
  by (induction ds arbitrary: j) simp_all

lemma case_sum_nonneg: "\<forall>d \<in> set ds. 0 \<le> hcases d \<Longrightarrow> 0 \<le> sum_list (map hcases ds)"
  by (induction ds) simp_all

lemma case_sum_le:
  "\<forall>d \<in> set ds. hcases d \<le> C \<Longrightarrow> sum_list (map hcases ds) \<le> int (length ds) * C"
  by (induction ds) (simp_all add: algebra_simps)

lemma weighted_sum_le:
  assumes "\<forall>d \<in> set ds. hcases d \<le> C" "0 \<le> C"
  shows "weighted_sum j ds \<le> int (j + length ds) * (int (length ds) * C)"
  using assms(1)
proof (induction ds arbitrary: j)
  case Nil
  show ?case by simp
next
  case (Cons d ds)
  define L where "L = int (Suc j + length ds)"
  have "hcases d \<le> C" using Cons.prems by simp
  then have "int j * hcases d \<le> int j * C" by (intro mult_left_mono) simp_all
  also have "\<dots> \<le> L * C" unfolding L_def using assms(2) by (intro mult_right_mono) simp_all
  finally have a: "int j * hcases d \<le> L * C" .
  have b: "weighted_sum (Suc j) ds \<le> L * (int (length ds) * C)"
    unfolding L_def using Cons.prems by (intro Cons.IH) simp
  have "int (j + length (d # ds)) * (int (length (d # ds)) * C) = L * (int (length ds) * C) + L * C"
    by (simp add: L_def algebra_simps)
  then show ?case using a b by simp
qed

lemma of_int_0_or_ge_1: "0 \<le> k \<Longrightarrow> (of_int k :: rat) = 0 \<or> 1 \<le> (of_int k :: rat)"
proof -
  assume "0 \<le> k"
  then have "k = 0 \<or> 1 \<le> k" by linarith
  then show ?thesis by auto
qed

lemma forEach_sums_cases:
  assumes "forEach_sums ds (int j) (sx, sy, sxy, sx2) = (rx, ry, rxy, rx2)"
    and "near_num (Suc j) (of_int Y) sy"
    and "near_num (Suc (Suc j)) (of_int XY) sxy"
    and "0 \<le> Y" "0 \<le> XY"
    and "\<forall>d \<in> set ds. 0 \<le> hcases d"
    and "(of_int (Y + sum_list (map hcases ds)) :: rat) \<le> 2 ^ 200"
    and "(of_int (XY + weighted_sum j ds) :: rat) \<le> 2 ^ 200"
    and "j + length ds \<le> 2 ^ 32"
  shows "near_num (Suc (j + length ds)) (of_int (Y + sum_list (map hcases ds))) ry
    \<and> near_num (Suc (Suc (j + length ds))) (of_int (XY + weighted_sum j ds)) rxy"
  using assms
proof (induction ds arbitrary: j sx sy sxy sx2 Y XY)
  case Nil
  then show ?case by simp
next
  case (Cons d ds)
  define c where "c = hcases d"
  have j: "j \<le> 2 ^ 32" using Cons.prems(9) by simp
  have k: "(0::nat) \<le> 2 ^ 34" "Suc 0 \<le> 2 ^ 34" "Suc j \<le> 2 ^ 34" "Suc (Suc j) \<le> 2 ^ 34"
    using j by simp_all
  have c0: "0 \<le> c" using Cons.prems(6) by (simp add: c_def)
  have r0: "0 \<le> sum_list (map hcases ds)" "0 \<le> weighted_sum (Suc j) ds"
    using Cons.prems(6) by (simp_all add: case_sum_nonneg weighted_sum_nonneg)
  have Y0: "0 \<le> Y" and XY0: "0 \<le> XY" using Cons.prems(4,5) .
  have jc0: "0 \<le> int j * c" using c0 by simp
  have tY: "(of_int (Y + c + sum_list (map hcases ds)) :: rat) \<le> 2 ^ 200"
    using Cons.prems(7) by (simp add: c_def add.assoc)
  have tXY: "(of_int (XY + int j * c + weighted_sum (Suc j) ds) :: rat) \<le> 2 ^ 200"
    using Cons.prems(8) by (simp add: c_def add.assoc)
  have "c \<le> Y + c + sum_list (map hcases ds)" using Y0 r0(1) by linarith
  then have "(of_int c :: rat) \<le> of_int (Y + c + sum_list (map hcases ds))"
    by (simp only: of_int_le_iff)
  then have cb: "(of_int c :: rat) \<le> 2 ^ 200" using tY by linarith
  have "Y + c \<le> Y + c + sum_list (map hcases ds)" using r0(1) by linarith
  then have "(of_int (Y + c) :: rat) \<le> of_int (Y + c + sum_list (map hcases ds))"
    by (simp only: of_int_le_iff)
  then have Ycb: "(of_int (Y + c) :: rat) \<le> 2 ^ 200" using tY by linarith
  have "int j * c \<le> XY + int j * c + weighted_sum (Suc j) ds" using XY0 r0(2) by linarith
  then have "(of_int (int j * c) :: rat) \<le> of_int (XY + int j * c + weighted_sum (Suc j) ds)"
    by (simp only: of_int_le_iff)
  then have jcb: "(of_int (int j * c) :: rat) \<le> 2 ^ 200" using tXY by linarith
  have "XY + int j * c \<le> XY + int j * c + weighted_sum (Suc j) ds" using r0(2) by linarith
  then have "(of_int (XY + int j * c) :: rat) \<le> of_int (XY + int j * c + weighted_sum (Suc j) ds)"
    by (simp only: of_int_le_iff)
  then have XYcb: "(of_int (XY + int j * c) :: rat) \<le> 2 ^ 200" using tXY by linarith
  obtain y where y: "sy = Finite y" "near (Suc j) (of_int Y) y"
    using Cons.prems(2) by (rule near_numE)
  obtain w where w: "sxy = Finite w" "near (Suc (Suc j)) (of_int XY) w"
    using Cons.prems(3) by (rule near_numE)
  have nj: "num_of_int (int j) = Finite (of_nat j)" using j by (rule num_of_nat_exact)
  \<comment> \<open>the count as a number\<close>
  have "near_num (Suc 0) (of_int c) (round64 (of_int c))"
    using near_refl of_int_0_or_ge_1[OF c0] small_le_pow2_1000[OF cb] k(1) by (rule near_round)
  then obtain c' where c': "num_of_int c = Finite c'" "near (Suc 0) (of_int c) c'"
    unfolding num_of_int_def[symmetric] by (rule near_numE)
  have c0': "0 \<le> (of_int c :: rat)" using c0 by simp
  \<comment> \<open>sumY\<close>
  have "near (Suc j) (of_int c) c'" using c'(2) c0' by (rule near_mono) simp
  with y(2) have "near (Suc j) (of_int Y + of_int c) (y + c')" by (rule near_add)
  then have "near (Suc j) (of_int (Y + c)) (y + c')" by simp
  moreover have "(of_int (Y + c) :: rat) = 0 \<or> 1 \<le> (of_int (Y + c) :: rat)"
    using Y0 c0 by (intro of_int_0_or_ge_1) simp
  ultimately have "near_num (Suc (Suc j)) (of_int (Y + c)) (round64 (y + c'))"
    using small_le_pow2_1000[OF Ycb] k(3) by (rule near_round)
  then have sy': "near_num (Suc (Suc j)) (of_int (Y + c)) (js_add sy (num_of_int (hcases d)))"
    by (simp add: y(1) c'(1) c_def[symmetric])
  \<comment> \<open>sumXY\<close>
  have "near (0 + Suc 0) (of_nat j * of_int c) (of_nat j * c')"
    using near_refl c'(2) _ c0' by (rule near_mult) simp
  then have "near (Suc 0) (of_int (int j * c)) (of_nat j * c')" by simp
  moreover have "(of_int (int j * c) :: rat) = 0 \<or> 1 \<le> (of_int (int j * c) :: rat)"
    using jc0 by (rule of_int_0_or_ge_1)
  ultimately have "near_num (Suc (Suc 0)) (of_int (int j * c)) (round64 (of_nat j * c'))"
    using small_le_pow2_1000[OF jcb] k(2) by (rule near_round)
  then obtain t where t: "round64 (of_nat j * c') = Finite t"
    "near (Suc (Suc 0)) (of_int (int j * c)) t" by (rule near_numE)
  have "0 \<le> (of_int (int j * c) :: rat)" using jc0 by (simp only: of_int_0_le_iff)
  with t(2) have "near (Suc (Suc j)) (of_int (int j * c)) t" by (rule near_mono) simp
  with w(2) have "near (Suc (Suc j)) (of_int XY + of_int (int j * c)) (w + t)" by (rule near_add)
  then have "near (Suc (Suc j)) (of_int (XY + int j * c)) (w + t)" by simp
  moreover have "(of_int (XY + int j * c) :: rat) = 0 \<or> 1 \<le> (of_int (XY + int j * c) :: rat)"
    using XY0 jc0 by (intro of_int_0_or_ge_1) simp
  ultimately have "near_num (Suc (Suc (Suc j))) (of_int (XY + int j * c)) (round64 (w + t))"
    using small_le_pow2_1000[OF XYcb] k(4) by (rule near_round)
  then have sxy': "near_num (Suc (Suc (Suc j))) (of_int (XY + int j * c))
      (js_add sxy (js_mul (num_of_int (int j)) (num_of_int (hcases d))))"
    by (simp add: w(1) nj c'(1) c_def[symmetric] t(1))
  have step: "forEach_sums ds (int (Suc j))
      (js_add sx (num_of_int (int j)), js_add sy (num_of_int (hcases d)),
       js_add sxy (js_mul (num_of_int (int j)) (num_of_int (hcases d))),
       js_add sx2 (js_mul (num_of_int (int j)) (num_of_int (int j)))) = (rx, ry, rxy, rx2)"
    using Cons.prems(1) by (simp add: add.commute)
  have len: "Suc j + length ds \<le> 2 ^ 32" using Cons.prems(9) by simp
  have pos: "0 \<le> Y + c" "0 \<le> XY + int j * c" using Y0 XY0 c0 jc0 by simp_all
  have rest: "\<forall>d \<in> set ds. 0 \<le> hcases d" using Cons.prems(6) by simp
  have "near_num (Suc (Suc j + length ds)) (of_int (Y + c + sum_list (map hcases ds))) ry
    \<and> near_num (Suc (Suc (Suc j + length ds))) (of_int (XY + int j * c + weighted_sum (Suc j) ds)) rxy"
    using step sy' sxy' pos rest tY tXY len by (rule Cons.IH)
  then show ?case by (simp add: c_def add.assoc)
qed

lemma int_le_2_32: "n \<le> 2 ^ 32 \<Longrightarrow> int n \<le> 2 ^ 32"
proof -
  assume "n \<le> 2 ^ 32"
  then have "int n \<le> int (2 ^ 32)" by (simp only: of_nat_le_iff)
  then show ?thesis by simp
qed

lemma of_int_le_numeral_power:
  "k \<le> 2 ^ e \<Longrightarrow> (of_int k :: rat) \<le> 2 ^ e"
proof -
  assume "k \<le> 2 ^ e"
  then have "(of_int k :: rat) \<le> of_int (2 ^ e)" by (simp only: of_int_le_iff)
  then show ?thesis by simp
qed

lemma forEach_sums_cases_0:
  assumes s: "forEach_sums hist 0 (Finite 0, Finite 0, Finite 0, Finite 0)
      = (sumX, sumY, sumXY, sumX2)"
    and c: "\<forall>d \<in> set hist. 0 \<le> hcases d \<and> hcases d \<le> 2 ^ 53"
    and n: "length hist \<le> 2 ^ 32"
  shows "bounded 86 sumY" and "bounded 118 sumXY"
proof -
  define Y where "Y = sum_list (map hcases hist)"
  define W where "W = weighted_sum 0 hist"
  have c0: "\<forall>d \<in> set hist. 0 \<le> hcases d" and c1: "\<forall>d \<in> set hist. hcases d \<le> 2 ^ 53"
    using c by simp_all
  have ni: "int (length hist) \<le> 2 ^ 32" using n by (rule int_le_2_32)
  have Y0: "0 \<le> Y" unfolding Y_def using c0 by (rule case_sum_nonneg)
  have W0: "0 \<le> W" unfolding W_def using c0 by (rule weighted_sum_nonneg)
  have "Y \<le> int (length hist) * 2 ^ 53" unfolding Y_def using c1 by (rule case_sum_le)
  also have "\<dots> \<le> 2 ^ 32 * 2 ^ 53" using ni by (intro mult_right_mono) simp_all
  finally have "Y \<le> 2 ^ 85" by simp
  then have Yb: "(of_int Y :: rat) \<le> 2 ^ 85" by (rule of_int_le_numeral_power)
  have "int (length hist) * 2 ^ 53 \<le> 2 ^ 32 * 2 ^ 53" using ni by (intro mult_right_mono) simp_all
  then have "int (length hist) * (int (length hist) * 2 ^ 53) \<le> 2 ^ 32 * (2 ^ 32 * 2 ^ 53)"
    using ni by (intro mult_mono) simp_all
  moreover have "W \<le> int (0 + length hist) * (int (length hist) * 2 ^ 53)"
    unfolding W_def using c1 by (rule weighted_sum_le) simp
  ultimately have "W \<le> 2 ^ 117" by simp
  then have Wb: "(of_int W :: rat) \<le> 2 ^ 117" by (rule of_int_le_numeral_power)
  have s': "forEach_sums hist (int 0) (Finite 0, Finite 0, Finite 0, Finite 0)
      = (sumX, sumY, sumXY, sumX2)" using s by simp
  have "near_num (Suc (0 + length hist)) (of_int (0 + sum_list (map hcases hist))) sumY
    \<and> near_num (Suc (Suc (0 + length hist))) (of_int (0 + weighted_sum 0 hist)) sumXY"
    using s'
  proof (rule forEach_sums_cases)
    show "near_num (Suc 0) (of_int 0) (Finite 0)" by (simp add: near_def)
    show "near_num (Suc (Suc 0)) (of_int 0) (Finite 0)" by (simp add: near_def)
    show "\<forall>d \<in> set hist. 0 \<le> hcases d" by (rule c0)
    show "(of_int (0 + sum_list (map hcases hist)) :: rat) \<le> 2 ^ 200"
      using Yb by (simp add: Y_def)
    show "(of_int (0 + weighted_sum 0 hist) :: rat) \<le> 2 ^ 200"
      using Wb by (simp add: W_def)
    show "0 + length hist \<le> 2 ^ 32" using n by simp
  qed simp_all
  then have ny: "near_num (Suc (length hist)) (of_int Y) sumY"
    and nw: "near_num (Suc (Suc (length hist))) (of_int W) sumXY"
    by (simp_all add: Y_def W_def)
  have k: "Suc (length hist) \<le> 2 ^ 34" "Suc (Suc (length hist)) \<le> 2 ^ 34" using n by simp_all
  show "bounded 86 sumY"
    by (rule near_bounded[OF ny _ k(1)]) (use Y0 Yb in \<open>simp_all add: pow2_def\<close>)
  show "bounded 118 sumXY"
    by (rule near_bounded[OF nw _ k(2)]) (use W0 Wb in \<open>simp_all add: pow2_def\<close>)
qed

lemma linear_fit_bounded:
  assumes "10 \<le> length hist" "length hist < 2 ^ 32"
    and c: "\<forall>d \<in> set hist. 0 \<le> hcases d \<and> hcases d \<le> 2 ^ 53"
  shows "bounded 152 (fst (linear_fit hist))" and "bounded 218 (snd (linear_fit hist))"
proof -
  obtain sumX sumY sumXY sumX2 where
    s: "forEach_sums hist 0 (Finite 0, Finite 0, Finite 0, Finite 0) = (sumX, sumY, sumXY, sumX2)"
    by (metis prod_cases4)
  have n: "length hist \<le> 2 ^ 32" and two: "2 \<le> length hist" using assms(1,2) by simp_all
  define N where "N = num_of_int (int (length hist))"
  have N: "N = Finite (of_nat (length hist))" unfolding N_def using n by (rule num_of_nat_exact)
  have "(of_nat (length hist) :: rat) \<le> pow2 32" using of_nat_le_2_32[OF n] by (simp add: pow2_def)
  then have bN: "bounded 32 N" by (simp add: N)
  have one: "(1 :: rat) \<le> of_nat (length hist)" using assms(1) by simp
  note bY = forEach_sums_cases_0[OF s c n]
  note ix = forEach_sums_index_0[OF s n]
  have "2 * index_sum (length hist) \<le> pow2 65"
    using index_sum_bound(1)[OF n] by (simp add: pow2_def)
  moreover have "0 \<le> index_sum (length hist)"
    using index_sum_ge[of 2 "length hist"] two by simp
  moreover have "length hist \<le> 2 ^ 34" using n by simp
  ultimately have bX: "bounded 65 sumX" by (intro near_bounded[OF ix(1)])
  obtain d where d: "divisor N sumX sumX2 = Finite d"
    "index_sum (length hist) * index_sum (length hist) / 8 \<le> d"
    unfolding N_def using divisor_lower[OF two assms(2) ix] by blast
  have "45 \<le> index_sum (length hist)" using index_sum_ge[of 10 "length hist"] assms(1) by simp
  then have "45 * 45 \<le> index_sum (length hist) * index_sum (length hist)"
    by (intro mult_mono) simp_all
  then have d1: "1 \<le> d" using d(2) by simp
  note dv = d(1)
  define m where "m = slope N sumX sumY sumXY sumX2"
  have "bounded (32 + 118) (js_mul N sumXY)" using bN bY(2) by (rule bounded_mul) simp_all
  then have p1: "bounded 151 (js_mul N sumXY)" by (rule bounded_mono) simp
  have "bounded (65 + 86) (js_mul sumX sumY)" using bX bY(1) by (rule bounded_mul) simp_all
  then have p2: "bounded 151 (js_mul sumX sumY)" by simp
  have "bounded (151 + 1) (js_sub (js_mul N sumXY) (js_mul sumX sumY))"
    using p1 p2 by (rule bounded_sub) simp_all
  then have "bounded 152 (js_sub (js_mul N sumXY) (js_mul sumX sumY))" by simp
  then have "bounded 152 (js_div (js_sub (js_mul N sumXY) (js_mul sumX sumY)) (Finite d))"
    using d1 by (rule bounded_div) simp_all
  then have bm: "bounded 152 m" by (simp add: m_def slope_def dv)
  have "bounded (152 + 65) (js_mul m sumX)" using bm bX by (rule bounded_mul) simp_all
  then have q1: "bounded 217 (js_mul m sumX)" by simp
  have q2: "bounded 217 sumY" using bY(1) by (rule bounded_mono) simp
  have "bounded (217 + 1) (js_sub sumY (js_mul m sumX))" using q2 q1 by (rule bounded_sub) simp_all
  then have "bounded 218 (js_sub sumY (js_mul m sumX))" by simp
  then have "bounded 218 (js_div (js_sub sumY (js_mul m sumX)) (Finite (of_nat (length hist))))"
    using one by (rule bounded_div) simp_all
  then have bb: "bounded 218 (intercept N sumX sumY m)" by (simp add: intercept_def N)
  have lf: "linear_fit hist = (m, intercept N sumX sumY m)"
    by (simp add: linear_fit_def s N_def m_def Let_def)
  show "bounded 152 (fst (linear_fit hist))" using bm by (simp add: lf)
  show "bounded 218 (snd (linear_fit hist))" using bb by (simp add: lf)
qed

lemma raw_forecast_bounded:
  assumes "bounded 152 m" "bounded 218 b" "0 \<le> n" "n \<le> 2 ^ 32" "0 \<le> k" "k \<le> 2 ^ 32"
  shows "bounded 219 (raw_forecast m b n k)"
proof -
  have "bounded 32 (num_of_int n)" using assms(3,4) by (intro bounded_num_of_int) simp_all
  moreover have "bounded 32 (num_of_int k)" using assms(5,6) by (intro bounded_num_of_int) simp_all
  ultimately have "bounded (32 + 1) (js_add (num_of_int n) (num_of_int k))"
    by (rule bounded_add) simp_all
  then have a: "bounded 33 (js_add (num_of_int n) (num_of_int k))" by simp
  have "(1 :: rat) \<le> pow2 33" using pow2_le_iff[of 0 33] by (simp del: pow2_le_iff)
  then have "bounded 33 (Finite 1)" by simp
  with a have "bounded (33 + 1) (js_sub (js_add (num_of_int n) (num_of_int k)) (Finite 1))"
    by (rule bounded_sub) simp_all
  then have "bounded 34 (js_sub (js_add (num_of_int n) (num_of_int k)) (Finite 1))" by simp
  with assms(1) have "bounded (152 + 34)
      (js_mul m (js_sub (js_add (num_of_int n) (num_of_int k)) (Finite 1)))"
    by (rule bounded_mul) simp_all
  then have "bounded 218 (js_mul m (js_sub (js_add (num_of_int n) (num_of_int k)) (Finite 1)))"
    by (rule bounded_mono) simp
  then have "bounded (218 + 1)
      (js_add (js_mul m (js_sub (js_add (num_of_int n) (num_of_int k)) (Finite 1))) b)"
    using assms(2) by (rule bounded_add) simp_all
  then show ?thesis by (simp add: raw_forecast_def)
qed

lemma floor_half: "\<lfloor>1 / 2 :: rat\<rfloor> = 0"
  by (simp add: floor_eq_iff)

lemma round_clamp_commute: "Math_max (Finite 0) (Math_round x) = Math_round (Math_max (Finite 0) x)"
proof (cases x)
  case (Finite q)
  show ?thesis
  proof (cases "0 \<le> q")
    case True
    then have "0 \<le> \<lfloor>q + 1 / 2\<rfloor>" by simp
    then have "max 0 (of_int \<lfloor>q + 1 / 2\<rfloor>) = (of_int \<lfloor>q + 1 / 2\<rfloor> :: rat)" by simp
    moreover have "max 0 q = q" using True by simp
    ultimately show ?thesis using Finite by simp
  next
    case False
    then have "\<lfloor>q + 1 / 2\<rfloor> \<le> 0" by (simp add: floor_le_iff)
    then have "max 0 (of_int \<lfloor>q + 1 / 2\<rfloor>) = (0 :: rat)" by simp
    moreover have "max 0 q = 0" using False by simp
    ultimately show ?thesis using Finite by (simp add: floor_half)
  qed
qed (simp_all add: floor_half)

lemma clamp_round_cases:
  "Math_max (Finite 0) (Math_round x) = NaN \<longleftrightarrow> x = NaN"
  "x \<noteq> NaN \<Longrightarrow> js_ge0 (Math_max (Finite 0) (Math_round x))"
  by (cases x; simp)+

lemma clamp_round_bounded:
  assumes "bounded e x"
  shows "\<exists>v. 0 \<le> v \<and> Math_max (Finite 0) (Math_round x) = Finite (of_int v)"
proof -
  obtain r where r: "x = Finite r" using assms by (rule boundedE)
  have "Math_max (Finite 0) (Math_round x) = Finite (of_int (max 0 \<lfloor>r + 1 / 2\<rfloor>))"
    by (simp add: r max_def)
  then show ?thesis by (intro exI[of _ "max 0 \<lfloor>r + 1 / 2\<rfloor>"]) simp
qed

lemma forecastData_nth:
  assumes "forecastData h (Some hist) d = Inr recs" "i < length recs"
  shows "fcases (recs ! i) = forecastedCases (fst (linear_fit hist)) (snd (linear_fit hist))
           (int (length hist)) (int i + 1)"
    and "10 \<le> length hist" and "int i + 1 \<le> d"
proof -
  have ne: "recs \<noteq> []" using assms(2) by auto
  obtain hist' t where r: "Some hist = Some hist'" "10 \<le> length hist'"
    "recs = map (forecast_record_at h hist' t) [1..d]"
    using forecastData_Inr[OF assms(1) ne] by metis
  have hh: "hist' = hist" using r(1) by simp
  have l: "i < length [1..d]" using assms(2) r(3) by simp
  then have id: "int i + 1 \<le> d" by simp
  have "[1..d] ! i = 1 + int i" using id by (intro nth_upto) simp
  then have "recs ! i = forecast_record_at h hist t (int i + 1)"
    using l r(3) hh by (simp add: add.commute)
  then show "fcases (recs ! i) = forecastedCases (fst (linear_fit hist)) (snd (linear_fit hist))
           (int (length hist)) (int i + 1)" by (simp add: forecast_record_at_def)
  show "10 \<le> length hist" using r(2) hh by simp
  show "int i + 1 \<le> d" by (rule id)
qed

lemma huge_pow2: "(of_int huge :: rat) = pow2 1023"
  unfolding huge_def pow2_def by (simp del: power_numeral)

lemma huge_exact: "num_of_int huge = Finite (of_int huge)"
proof -
  have "round64 (of_int 1 * pow2 1023) = Finite (of_int 1 * pow2 1023)"
    by (rule round64_exact) simp_all
  then show ?thesis by (simp add: num_of_int_def huge_pow2)
qed

lemma huge_twice: "2 \<le> k \<Longrightarrow> round64 (k * of_int huge) = PosInf"
proof (rule round64_overflow)
  assume "2 \<le> k"
  then have "2 * pow2 1023 \<le> k * pow2 1023" by (intro mult_right_mono) simp_all
  moreover have "pow2 1024 = 2 * pow2 1023" using pow2_Suc[of 1023] by simp
  ultimately show "pow2 1024 \<le> k * of_int huge" by (simp add: huge_pow2)
qed

lemma huge_sum: "round64 (of_int huge + of_int huge) = PosInf"
  using huge_twice[of 2] by simp

lemma huge_once: "round64 (of_int huge) = Finite (of_int huge)"
  using huge_exact by (simp add: num_of_int_def)

lemma overflow_history_sums:
  "forEach_sums overflow_history 0 (Finite 0, Finite 0, Finite 0, Finite 0)
     = (Finite 45, PosInf, PosInf, Finite 285)"
  unfolding overflow_history_def
  by (simp add: huge_exact huge_twice huge_sum huge_once round64_numeral num_of_int_numeral)

lemma overflow_history_length: "length overflow_history = 10"
  by (simp add: overflow_history_def)

lemma overflow_history_last:
  "Date_new utc_host (hdate (last overflow_history)) = Some 1611964800000"
proof -
  have "hdate (last overflow_history) = hdate (last linear_history)"
    by (simp add: overflow_history_def linear_history_def)
  then show ?thesis by (simp only: linear_history_last)
qed

lemma overflow_history_fit: "linear_fit overflow_history = (NaN, NaN)"
  by (simp add: linear_fit_def overflow_history_sums overflow_history_length slope_def divisor_def
        intercept_def js_sub_def round64_numeral num_of_int_numeral)

lemma overflow_forecast_utc:
  "forecastData utc_host (Some overflow_history) 1 =
     Inr [\<lparr>fdate = ''2021-01-31'', fcases = NaN, isForecast = True\<rparr>]"
proof -
  have len: "10 \<le> length overflow_history" by (simp add: overflow_history_length)
  have rng: "\<forall>k \<in> {1..1}. TimeClip (forecast_time utc_host 1611964800000 k) \<noteq> None"
    by (auto simp: utc_forecast_time TimeClip_def msPerDay_def)
  have u: "[1..1::int] = [1]" by code_simp
  have d: "Day (1611964800000 + msPerDay) = 18658"
    by (simp_all add: Day_def msPerDay_def)
  have f: "format_civil (2021, 1, 31) = ''2021-01-31''"
    by code_simp+
  have c: "forecastedCases NaN NaN 10 1 = NaN"
    by (simp add: forecastedCases_def raw_forecast_def js_sub_def round64_numeral
        num_of_int_numeral)
  show ?thesis
    unfolding forecastData_returns[OF len overflow_history_last rng] u
    by (simp add: forecast_record_at_def utc_forecast_time d days_2021 f c
          overflow_history_fit overflow_history_length del: format_civil.simps)
qed

section \<open>The claims about \<^verbatim>\<open>processHistoricalData\<close>\<close>

text \<open>
  C1 (union completeness). Whatever the three arguments are, each an object or absent, the
  dates of the returned records are exactly the keys of the objects that are present (an
  absent argument has none), no date occurs twice, and there are as many records as there
  are distinct keys; with all three arguments absent the result is the empty array. Dates
  are told apart as the \<^verbatim>\<open>Set\<close> tells them apart: as strings.
\<close>

theorem align_union_complete:
  "set (map date (processHistoricalData h c r v)) =
     (case c of None \<Rightarrow> {} | Some obj \<Rightarrow> fst ` set obj)
       \<union> (case r of None \<Rightarrow> {} | Some obj \<Rightarrow> fst ` set obj)
       \<union> (case v of None \<Rightarrow> {} | Some obj \<Rightarrow> fst ` set obj)
   \<and> distinct (map date (processHistoricalData h c r v))
   \<and> length (processHistoricalData h c r v) =
       card ((case c of None \<Rightarrow> {} | Some obj \<Rightarrow> fst ` set obj)
         \<union> (case r of None \<Rightarrow> {} | Some obj \<Rightarrow> fst ` set obj)
         \<union> (case v of None \<Rightarrow> {} | Some obj \<Rightarrow> fst ` set obj))
   \<and> processHistoricalData h None None None = []"
proof -
  have k: "set (Object_keys data) = (case data of None \<Rightarrow> {} | Some obj \<Rightarrow> fst ` set obj)"
    for data :: "series option"
    by (simp add: Object_keys_def split: option.splits)
  have s: "set (map date (processHistoricalData h c r v)) =
     (case c of None \<Rightarrow> {} | Some obj \<Rightarrow> fst ` set obj)
       \<union> (case r of None \<Rightarrow> {} | Some obj \<Rightarrow> fst ` set obj)
       \<union> (case v of None \<Rightarrow> {} | Some obj \<Rightarrow> fst ` set obj)"
    using align_dates_set[of h c r v] by (simp only: k)
  have "length (processHistoricalData h c r v) = length (map date (processHistoricalData h c r v))"
    by simp
  also have "\<dots> = card (set (map date (processHistoricalData h c r v)))"
    using align_dates_distinct[of h c r v] by (simp only: distinct_card)
  finally have l: "length (processHistoricalData h c r v) =
       card ((case c of None \<Rightarrow> {} | Some obj \<Rightarrow> fst ` set obj)
         \<union> (case r of None \<Rightarrow> {} | Some obj \<Rightarrow> fst ` set obj)
         \<union> (case v of None \<Rightarrow> {} | Some obj \<Rightarrow> fst ` set obj))"
    by (simp only: s)
  have e: "processHistoricalData h None None None = []"
    by (simp add: processHistoricalData_def Object_keys_def Array_sort_def Set_from_def)
  show ?thesis using s l e align_dates_distinct[of h c r v] by (intro conjI)
qed

theorem align_union_complete_witness:
  "set (map date (processHistoricalData utc_host (Some cases_series) None (Some vaccine_series)))
     = {''2021-01-03'', ''2021-01-01'', ''+002021-01-02''}
   \<and> distinct (map date
         (processHistoricalData utc_host (Some cases_series) None (Some vaccine_series)))
   \<and> length (processHistoricalData utc_host (Some cases_series) None (Some vaccine_series)) = 3
   \<and> card {''2021-01-03'', ''2021-01-01'', ''+002021-01-02''} = 3"
proof -
  have k: "fst ` set cases_series \<union> {} \<union> fst ` set vaccine_series
      = {''2021-01-03'', ''2021-01-01'', ''+002021-01-02''}"
    by (auto simp: cases_series_def vaccine_series_def)
  have l: "length (processHistoricalData utc_host (Some cases_series) None (Some vaccine_series))
      = 3"
    by (simp add: example_aligned)
  show ?thesis
    using align_union_complete [of utc_host "Some cases_series" None "Some vaccine_series"]
    unfolding option.case k l by simp
qed

text \<open>
  C2 (sort order). When every key is a date, the records that \<^verbatim>\<open>processHistoricalData\<close>
  returns are in non-decreasing order of the dates their keys denote: the order of the
  \<^verbatim>\<open>Date\<close> values, not of the strings. The records that \<^verbatim>\<open>forecastData\<close> returns are
  in non-decreasing order of date too, on a steady host.
\<close>

theorem sort_order:
  "((\<forall>k \<in> set (Object_keys c @ Object_keys r @ Object_keys v). Date_new h k \<noteq> None)
      \<longrightarrow> sorted_wrt (date_le h) (map date (processHistoricalData h c r v)))
   \<and> (steady_host h \<and> forecastData h hist d = Inr recs
      \<longrightarrow> sorted_wrt (date_le h) (map fdate recs))"
  using align_sorted[of c r v h] forecast_sorted[of h hist d recs] by blast

theorem sort_order_witness:
  "list_all (\<lambda>k. Date_new utc_host k \<noteq> None)
     (Object_keys (Some cases_series) @ Object_keys None @ Object_keys (Some vaccine_series))
   \<and> map date (processHistoricalData utc_host (Some cases_series) None (Some vaccine_series))
       = [''2021-01-01'', ''+002021-01-02'', ''2021-01-03'']
   \<and> sorted_wrt (date_le utc_host) [''2021-01-01'', ''+002021-01-02'', ''2021-01-03'']
   \<and> steady_host utc_host
   \<and> forecastData utc_host (Some linear_history) 3 =
       Inr [\<lparr>fdate = ''2021-01-31'', fcases = Finite 200, isForecast = True\<rparr>,
            \<lparr>fdate = ''2021-02-01'', fcases = Finite 210, isForecast = True\<rparr>,
            \<lparr>fdate = ''2021-02-02'', fcases = Finite 220, isForecast = True\<rparr>]
   \<and> sorted_wrt (date_le utc_host) [''2021-01-31'', ''2021-02-01'', ''2021-02-02'']"
proof -
  have k: "\<forall>k \<in> set (Object_keys (Some cases_series) @ Object_keys None
      @ Object_keys (Some vaccine_series)). Date_new utc_host k \<noteq> None"
    by code_simp
  have l: "list_all (\<lambda>k. Date_new utc_host k \<noteq> None)
     (Object_keys (Some cases_series) @ Object_keys None @ Object_keys (Some vaccine_series))"
    using k by (simp only: list_all_iff)
  have a: "map date (processHistoricalData utc_host (Some cases_series) None (Some vaccine_series))
       = [''2021-01-01'', ''+002021-01-02'', ''2021-01-03'']"
    by (simp add: example_aligned)
  show ?thesis
    using k l steady_utc_host linear_forecast_utc
      sort_order [of "Some cases_series" None "Some vaccine_series" utc_host
        "Some linear_history" 3
        "[\<lparr>fdate = ''2021-01-31'', fcases = Finite 200, isForecast = True\<rparr>,
          \<lparr>fdate = ''2021-02-01'', fcases = Finite 210, isForecast = True\<rparr>,
          \<lparr>fdate = ''2021-02-02'', fcases = Finite 220, isForecast = True\<rparr>]"]
    unfolding a by simp
qed

text \<open>
  C3 (zero fill). In every returned record each of \<open>cases\<close>, \<open>recovered\<close> and
  \<open>vaccines\<close> is the value its series stores at the record's date, or 0 when the series
  is absent or has no such key; so a field whose series lacks the date is exactly 0, and
  for a date present in one series only the other two fields are 0.
\<close>

theorem align_zero_fill:
  "r \<in> set (processHistoricalData h c rc v) \<Longrightarrow>
     cases r = spec_value c (date r)
     \<and> recovered r = spec_value rc (date r)
     \<and> vaccines r = spec_value v (date r)
     \<and> (date r \<notin> set (Object_keys c) \<longrightarrow> cases r = 0)
     \<and> (date r \<notin> set (Object_keys rc) \<longrightarrow> recovered r = 0)
     \<and> (date r \<notin> set (Object_keys v) \<longrightarrow> vaccines r = 0)"
proof -
  assume "r \<in> set (processHistoricalData h c rc v)"
  then have "r = \<lparr>date = date r, cases = spec_value c (date r),
      recovered = spec_value rc (date r), vaccines = spec_value v (date r)\<rparr>"
    using align_record[of r h c rc v] by (simp add: value_or_0_spec)
  then have "cases r = spec_value c (date r)" "recovered r = spec_value rc (date r)"
    "vaccines r = spec_value v (date r)"
    by (metis aligned_record.select_convs(2), metis aligned_record.select_convs(3),
        metis aligned_record.select_convs(4))
  then show ?thesis by (simp add: spec_value_missing)
qed

theorem align_zero_fill_witness:
  "\<lparr>date = ''2021-01-03'', cases = 5, recovered = 0, vaccines = 0\<rparr>
       \<in> set (processHistoricalData utc_host (Some cases_series) None (Some vaccine_series))
   \<and> (5::int) = spec_value (Some cases_series) ''2021-01-03''
   \<and> (0::int) = spec_value None ''2021-01-03''
   \<and> (0::int) = spec_value (Some vaccine_series) ''2021-01-03''
   \<and> ''2021-01-03'' \<notin> set (Object_keys (Some vaccine_series))"
proof -
  let ?r = "\<lparr>date = ''2021-01-03'', cases = 5, recovered = 0, vaccines = 0\<rparr>"
  have m: "?r \<in> set (processHistoricalData utc_host (Some cases_series) None (Some vaccine_series))"
    by (simp add: example_aligned)
  have k: "''2021-01-03'' \<notin> set (Object_keys (Some vaccine_series))"
    by (simp add: Object_keys_def vaccine_series_def)
  show ?thesis using m k align_zero_fill [OF m] by simp
qed

section \<open>The claims about \<^verbatim>\<open>forecastData\<close>\<close>

text \<open>
  C4 (forecast floor). A history of fewer than 10 points gives the empty forecast, whatever
  the horizon, and raises nothing: the result is the value \<open>Inr []\<close>, not an error.
\<close>

theorem forecast_floor:
  "length hist < 10 \<Longrightarrow> forecastData h (Some hist) d = Inr []"
  by (simp add: forecastData_def)

theorem forecast_floor_witness:
  "length (take 9 linear_history) < 10
   \<and> forecastData utc_host (Some (take 9 linear_history)) 14 = Inr []"
proof -
  have l: "length (take 9 linear_history) < 10" by (simp add: linear_history_def)
  show ?thesis using l forecast_floor [OF l, of utc_host 14] by simp
qed

text \<open>
  C5 (forecast length). For a history of at least 10 points whose last date is a date, and
  a horizon \<open>d \<ge> 0\<close> whose forecast dates all lie within the range of \<^verbatim>\<open>Date\<close>
  (100,000,000 days either side of 1970-01-01), \<^verbatim>\<open>forecastData\<close> returns exactly
  \<open>d\<close> records, each with \<open>isForecast = true\<close>. The range matters: when a forecast
  date leaves it, \<^verbatim>\<open>setDate\<close> yields the Invalid Date and \<^verbatim>\<open>toISOString\<close> throws, as the
  horizon of 100,000,000 days shows.
\<close>

theorem forecast_length:
  assumes "10 \<le> length hist" and "Date_new h (hdate (last hist)) = Some t" and "0 \<le> d"
    and "\<forall>k \<in> {1..d}. TimeClip (forecast_time h t k) \<noteq> None"
  shows "\<exists>recs. forecastData h (Some hist) d = Inr recs \<and> int (length recs) = d
    \<and> (\<forall>r \<in> set recs. isForecast r)"
proof -
  have "forecastData h (Some hist) d = Inr (map (forecast_record_at h hist t) [1..d])"
    using assms(1,2,4) by (rule forecastData_returns)
  moreover have "int (length (map (forecast_record_at h hist t) [1..d])) = d"
    using assms(3) by simp
  moreover have "\<forall>r \<in> set (map (forecast_record_at h hist t) [1..d]). isForecast r"
    by (simp add: forecast_record_at_def)
  ultimately show ?thesis by blast
qed

theorem forecast_length_witness:
  "10 \<le> length linear_history
   \<and> Date_new utc_host (hdate (last linear_history)) = Some 1611964800000
   \<and> list_all (\<lambda>k. TimeClip (forecast_time utc_host 1611964800000 k) \<noteq> None) [1, 2, 3]
   \<and> (\<exists>recs. forecastData utc_host (Some linear_history) 3 = Inr recs \<and> int (length recs) = 3
        \<and> list_all isForecast recs)"
proof -
  have len: "10 \<le> length linear_history" by (simp add: linear_history_length)
  have rng: "\<forall>k \<in> {1..3}. TimeClip (forecast_time utc_host 1611964800000 k) \<noteq> None"
    by (auto simp: utc_forecast_time TimeClip_def msPerDay_def)
  have l: "list_all (\<lambda>k. TimeClip (forecast_time utc_host 1611964800000 k) \<noteq> None) [1, 2, 3]"
    using rng by simp
  show ?thesis
    using len linear_history_last l forecast_length [OF len linear_history_last _ rng]
    by (simp add: list_all_iff)
qed

theorem forecast_length_counterexample:
  "10 \<le> length linear_history
   \<and> forecastData utc_host (Some linear_history) 100000000 = Inl RangeError"
proof -
  have len: "10 \<le> length linear_history" by (simp add: linear_history_length)
  have k: "(100000000::int) \<in> {1..100000000}" by simp
  have c: "TimeClip (forecast_time utc_host 1611964800000 100000000) = None"
    by (simp add: utc_forecast_time TimeClip_def msPerDay_def)
  show ?thesis using len forecastData_raises[OF len linear_history_last k c] by simp
qed

text \<open>
  C6 (linear fit). On a history of ten points with \<open>cases[i] = 100 + 10 i\<close> the fit is
  \<open>m = 10\<close>, \<open>b = 100\<close>, and the forecast with horizon 3 is that line at
  \<open>x = 10, 11, 12\<close>: 200, 210, 220. All the numbers involved are small integers, so
  binary64 arithmetic computes them exactly. The values 130, 140, 150 are not what is
  returned.
\<close>

theorem linear_fit_exact:
  assumes "map hcases hist = [100, 110, 120, 130, 140, 150, 160, 170, 180, 190]"
    and "Date_new h (hdate (last hist)) = Some t"
    and "\<forall>k \<in> {1..3}. TimeClip (forecast_time h t k) \<noteq> None"
  shows "linear_fit hist = (Finite 10, Finite 100)
    \<and> (\<exists>recs. forecastData h (Some hist) 3 = Inr recs
          \<and> map fcases recs = [Finite 200, Finite 210, Finite 220])"
proof -
  have "map hcases hist = map hcases linear_history"
    unfolding assms(1) by (simp add: linear_history_def)
  then have fit: "linear_fit hist = (Finite 10, Finite 100)"
    using linear_fit_cong[of hist linear_history] linear_history_fit by simp
  have "length (map hcases hist) = 10" unfolding assms(1) by simp
  then have len: "length hist = 10" by simp
  have u: "[1..3::int] = [1, 2, 3]" by code_simp
  note c = linear_forecast_cases
  have a: "forecastData h (Some hist) 3 = Inr (map (forecast_record_at h hist t) [1..3])"
    using assms(2,3) len by (intro forecastData_returns) simp_all
  have b: "map fcases (map (forecast_record_at h hist t) [1..3])
      = [Finite 200, Finite 210, Finite 220]"
    unfolding u by (simp add: forecast_record_at_def fit len c)
  show ?thesis
  proof (intro conjI exI)
    show "linear_fit hist = (Finite 10, Finite 100)" by (rule fit)
    show "forecastData h (Some hist) 3 = Inr (map (forecast_record_at h hist t) [1..3])"
      by (rule a)
    show "map fcases (map (forecast_record_at h hist t) [1..3])
      = [Finite 200, Finite 210, Finite 220]"
      by (rule b)
  qed
qed

theorem linear_fit_exact_witness:
  "map hcases linear_history = [100, 110, 120, 130, 140, 150, 160, 170, 180, 190]
   \<and> Date_new utc_host (hdate (last linear_history)) = Some 1611964800000
   \<and> list_all (\<lambda>k. TimeClip (forecast_time utc_host 1611964800000 k) \<noteq> None) [1, 2, 3]
   \<and> linear_fit linear_history = (Finite 10, Finite 100)
   \<and> (\<exists>recs. forecastData utc_host (Some linear_history) 3 = Inr recs
         \<and> map fcases recs = [Finite 200, Finite 210, Finite 220])"
proof -
  have m: "map hcases linear_history = [100, 110, 120, 130, 140, 150, 160, 170, 180, 190]"
    by (simp add: linear_history_def)
  have rng: "\<forall>k \<in> {1..3}. TimeClip (forecast_time utc_host 1611964800000 k) \<noteq> None"
    by (auto simp: utc_forecast_time TimeClip_def msPerDay_def)
  have l: "list_all (\<lambda>k. TimeClip (forecast_time utc_host 1611964800000 k) \<noteq> None) [1, 2, 3]"
    using rng by simp
  show ?thesis
    using m linear_history_last l linear_fit_exact [OF m linear_history_last rng] by simp
qed

theorem linear_fit_exact_counterexample:
  "map hcases linear_history = [100, 110, 120, 130, 140, 150, 160, 170, 180, 190]
   \<and> forecastData utc_host (Some linear_history) 3 =
       Inr [\<lparr>fdate = ''2021-01-31'', fcases = Finite 200, isForecast = True\<rparr>,
            \<lparr>fdate = ''2021-02-01'', fcases = Finite 210, isForecast = True\<rparr>,
            \<lparr>fdate = ''2021-02-02'', fcases = Finite 220, isForecast = True\<rparr>]
   \<and> \<not> (\<exists>recs. forecastData utc_host (Some linear_history) 3 = Inr recs
           \<and> map fcases recs = [Finite 130, Finite 140, Finite 150])"
  by (simp add: linear_forecast_utc) (simp add: linear_history_def)

text \<open>
  C7 (date continuity). The date of record \<open>k\<close> should be the last date of the history
  plus \<open>k\<close> days. \<^verbatim>\<open>forecastData\<close> adds the days in local time (\<^verbatim>\<open>getDate\<close>,
  \<^verbatim>\<open>setDate\<close>) to an instant parsed as UTC midnight and prints the result in UTC
  (\<^verbatim>\<open>toISOString\<close>), so the printed date depends on the host's zone. On the New York
  host the history ending on 2021-03-13 gets the date 2021-03-14 twice for horizon 2: the
  second forecast instant is 19:00 local time on the 14th, which after the clocks went
  forward is 23:00 UTC of the same day, not midnight of the 15th.
\<close>

theorem new_york_forecast_dates:
  "hdate (last march_history) = ''2021-03-13''
   \<and> format_civil ((next_day ^^ 2) (2021, 3, 13)) = ''2021-03-15''
   \<and> (\<exists>recs. forecastData new_york_2021 (Some march_history) 2 = Inr recs
         \<and> map fdate recs = [''2021-03-14'', ''2021-03-14''])"
proof -
  have len: "10 \<le> length march_history" by (simp add: march_history_def)
  have u: "[1..2::int] = [1, 2]" by code_simp
  have rng: "\<forall>k \<in> {1..2}. TimeClip (forecast_time new_york_2021 1615593600000 k) \<noteq> None"
  proof
    fix k :: int assume "k \<in> {1..2}"
    then have "k = 1 \<or> k = 2" by auto
    then show "TimeClip (forecast_time new_york_2021 1615593600000 k) \<noteq> None"
      by (auto simp: new_york_forecast_times TimeClip_def)
  qed
  have d: "Day 1615680000000 = 18700" "Day 1615762800000 = 18700"
    by (simp_all add: Day_def msPerDay_def)
  have f: "format_civil (2021, 3, 14) = ''2021-03-14''" by code_simp
  have "map fdate (map (forecast_record_at new_york_2021 march_history 1615593600000) [1..2])
      = [''2021-03-14'', ''2021-03-14'']"
    unfolding u
    by (simp add: forecast_record_at_def new_york_forecast_times d days_2021 f
          del: format_civil.simps)
  moreover have "hdate (last march_history) = ''2021-03-13''" by (simp add: march_history_def)
  moreover have "format_civil ((next_day ^^ 2) (2021, 3, 13)) = ''2021-03-15''" by code_simp
  ultimately show ?thesis
    using forecastData_returns[OF len march_history_last rng] by simp
qed






text \<open>
  C10 (absent history). A history that is null or undefined gives the empty forecast for
  every horizon, as a short history does; absence is not an error.
\<close>

theorem forecast_absent:
  "forecastData h None d = Inr []"
  by (simp add: forecastData_def)

end
